theory Spec2Isabelle
  imports Complex_Main "HOL-Library.AList"
begin

section \<open>Data model\<close>

text \<open>
  The memory module keeps entities (JSON objects, one file each), relationships between
  entity ids (one file each) and in-memory indices and caches.  The model below follows
  the three classes of the source: \<open>StorageManager\<close>, \<open>KnowledgeGraph\<close> and
  \<open>QueryEngine\<close>.

  Conventions of the embedding.
  \<^item> A JS string field that is absent, \<open>null\<close> or the empty string is falsy; the code
    only ever tests such fields for truthiness, so the model writes all three as \<open>''''\<close>.
  \<^item> An optional argument is an \<open>option\<close>: \<open>None\<close> is the omitted argument, and
    \<open>Some ''''\<close> stands for an explicit \<open>null\<close> or empty string.
  \<^item> A JS \<open>Map\<close> is an association list with distinct keys in insertion order
    (\<open>AList.update\<close> overwrites in place or appends, as \<open>Map.set\<close> does); a JS
    \<open>Set\<close> of ids is a list without repetition in insertion order.
  \<^item> The file system is an association list from paths to parsed file contents;
    \<open>JSON.stringify\<close> followed by \<open>JSON.parse\<close> is taken to be the identity, and the only
    I/O failure modelled is the absent file (\<open>ENOENT\<close>).
  \<^item> Clock readings and random ids are parameters of the operations that use them.
  \<^item> Characters are 8-bit; every character outside ASCII is punctuation to the tokenizer.
\<close>

datatype metaval = MStr string | MArr "string list" | MNull

record entity =
  ent_id :: string
  ent_type :: string
  created :: string
  updated :: string
  agentId :: string
  projectId :: string
  templateId :: string
  content :: string
  ent_name :: string
  description :: string
  metadata :: "(string \<times> metaval) list option"
  tags :: "string list option"

record relationship =
  rel_id :: string
  sourceId :: string
  targetId :: string
  rel_type :: string
  properties :: "(string \<times> string) list"
  rel_created :: string
  rel_updated :: string

text \<open>
  Errors.  \<open>Error msg\<close> is a plain \<open>new Error(msg)\<close>, which has no \<open>code\<close> property;
  \<open>SysError code\<close> is an error raised by the \<open>fs\<close> module, whose \<open>code\<close> is for
  instance \<open>ENOENT\<close>.
\<close>

datatype error = Error string | SysError string

fun error_code :: "error \<Rightarrow> string option" where
  "error_code (Error msg) = None"
| "error_code (SysError c) = Some c"

text \<open>The directories of \<open>this.directories\<close> that hold entity files.\<close>

datatype directory = Agents string | Projects string | Templates string | Shared | Temp

type_synonym file_path = "directory \<times> string"

type_synonym 'k id_index = "('k \<times> string list) list"

record storage_manager =
  files :: "(file_path \<times> entity) list"
  agentDirs :: "string list"
  projectDirs :: "string list"
  templateDirs :: "string list"
  text_index :: "string id_index"
  metadata_index :: "(string \<times> string id_index) list"
  agentId_index :: "string id_index"
  entityCache :: "(string \<times> entity) list"
  maxCacheSize :: int

section \<open>JavaScript helpers\<close>

definition truthy :: "string option \<Rightarrow> bool" where
  "truthy s = (case s of None \<Rightarrow> False | Some v \<Rightarrow> v \<noteq> [])"

text \<open>\<open>Set.prototype.add\<close> and \<open>Set.prototype.delete\<close> on an insertion-ordered set.\<close>

definition set_add :: "'a \<Rightarrow> 'a list \<Rightarrow> 'a list" where
  "set_add x xs = (if x \<in> set xs then xs else xs @ [x])"

definition set_delete :: "'a \<Rightarrow> 'a list \<Rightarrow> 'a list" where
  "set_delete x xs = removeAll x xs"

text \<open>\<open>Array.prototype.slice(start, end)\<close> with its treatment of negative and
  out-of-range indices.\<close>

definition js_slice :: "'a list \<Rightarrow> int \<Rightarrow> int \<Rightarrow> 'a list" where
  "js_slice xs start fin =
     (let n = int (length xs);
          k = (if start < 0 then max (n + start) 0 else min start n);
          f = (if fin < 0 then max (n + fin) 0 else min fin n)
      in take (nat (f - k)) (drop (nat k) xs))"

text \<open>The index idiom
  \<open>if (!index.has(k)) index.set(k, new Set()); index.get(k).add(id)\<close>.\<close>

definition index_add :: "'k \<Rightarrow> string \<Rightarrow> 'k id_index \<Rightarrow> 'k id_index" where
  "index_add k i idx =
     AList.update k (set_add i (case map_of idx k of None \<Rightarrow> [] | Some s \<Rightarrow> s)) idx"

text \<open>The cache idiom of \<open>_cacheEntity\<close> and \<open>_cacheRelationship\<close>: set the key, then,
  when the size exceeds the maximum, delete the first \<open>size - max\<close> keys.\<close>

definition cache_put :: "int \<Rightarrow> string \<Rightarrow> 'v \<Rightarrow> (string \<times> 'v) list \<Rightarrow> (string \<times> 'v) list" where
  "cache_put mx k v c =
     (let c1 = AList.update k v c in
      if int (length c1) > mx
      then let entriesToRemove = int (length c1) - mx;
               keys = js_slice (map fst c1) 0 entriesToRemove
           in fold AList.delete keys c1
      else c1)"

subsection \<open>The tokenizer\<close>

definition lower_char :: "char \<Rightarrow> char" where
  "lower_char c =
     (let n = (of_char c :: nat) in if 65 \<le> n \<and> n \<le> 90 then char_of (n + 32) else c)"

definition is_word :: "char \<Rightarrow> bool" where
  "is_word c =
     (let n = (of_char c :: nat)
      in (48 \<le> n \<and> n \<le> 57) \<or> (65 \<le> n \<and> n \<le> 90) \<or> n = 95 \<or> (97 \<le> n \<and> n \<le> 122))"

definition is_space :: "char \<Rightarrow> bool" where
  "is_space c = ((of_char c :: nat) \<in> {9, 10, 11, 12, 13, 32, 160})"

text \<open>\<open>s.split(/\s+/)\<close>: every maximal run of white space is one separator; a separator
  at either end leaves an empty string there, and the empty string splits into one empty
  string.\<close>

fun split_ws :: "bool \<Rightarrow> string \<Rightarrow> string \<Rightarrow> string list" where
  "split_ws inws cur [] = [cur]"
| "split_ws inws cur (c # cs) =
     (if is_space c then (if inws then split_ws True cur cs else cur # split_ws True [] cs)
      else split_ws False (cur @ [c]) cs)"

definition tokenizeText :: "string \<Rightarrow> string list" where
  "tokenizeText txt =
     filter (\<lambda>token. length token > 1)
       (split_ws False []
          (map (\<lambda>c. if is_word c \<or> is_space c then c else CHR '' '') (map lower_char txt)))"

section \<open>StorageManager\<close>

text \<open>The constructor: \<open>this.maxCacheSize = options.maxCacheSize || 1000\<close>, every index and
  the cache empty.  The disk is a parameter.\<close>

definition new_storage_manager ::
  "(file_path \<times> entity) list \<Rightarrow> string list \<Rightarrow> string list \<Rightarrow> string list \<Rightarrow> int \<Rightarrow> storage_manager" where
  "new_storage_manager fs ads pds tds optMaxCacheSize =
     \<lparr> files = fs, agentDirs = ads, projectDirs = pds, templateDirs = tds,
       text_index = [], metadata_index = [], agentId_index = [],
       entityCache = [],
       maxCacheSize = (if optMaxCacheSize = 0 then 1000 else optMaxCacheSize) \<rparr>"

text \<open>\<open>_getEntityPath\<close>: the directory and the file path (the file name is the id; the
  constant suffix \<open>.json\<close> is left out).\<close>

definition getEntityPath :: "entity \<Rightarrow> string \<Rightarrow> directory \<times> file_path" where
  "getEntityPath e ctx =
     (let storageDir =
        (if ctx = ''agent'' \<and> agentId e \<noteq> [] then Agents (agentId e)
         else if ctx = ''project'' \<and> projectId e \<noteq> [] then Projects (projectId e)
         else if ctx = ''template'' \<and> templateId e \<noteq> [] then Templates (templateId e)
         else if ctx = ''shared'' then Shared
         else Temp)
      in (storageDir, (storageDir, ent_id e)))"

text \<open>\<open>_getEntityContext\<close>.\<close>

definition getEntityContext :: "entity \<Rightarrow> string" where
  "getEntityContext e =
     (if agentId e \<noteq> [] then ''agent''
      else if projectId e \<noteq> [] then ''project''
      else if templateId e \<noteq> [] then ''template''
      else ''shared'')"

text \<open>\<open>fs.mkdir(dir, {recursive: true})\<close>: a new subdirectory becomes visible to
  \<open>readdir\<close> of its parent.\<close>

fun mkdir :: "directory \<Rightarrow> storage_manager \<Rightarrow> storage_manager" where
  "mkdir (Agents a) st = st\<lparr>agentDirs := set_add a (agentDirs st)\<rparr>"
| "mkdir (Projects p) st = st\<lparr>projectDirs := set_add p (projectDirs st)\<rparr>"
| "mkdir (Templates t) st = st\<lparr>templateDirs := set_add t (templateDirs st)\<rparr>"
| "mkdir Shared st = st"
| "mkdir Temp st = st"

definition cacheEntity :: "entity \<Rightarrow> storage_manager \<Rightarrow> storage_manager" where
  "cacheEntity e st = st\<lparr>entityCache := cache_put (maxCacheSize st) (ent_id e) e (entityCache st)\<rparr>"

text \<open>\<open>_indexText\<close>, \<open>_indexMetadataValue\<close>, \<open>_indexMetadata\<close>, \<open>_indexAgentId\<close> and
  \<open>_indexEntity\<close>.  Saving the indices to disk writes files that only \<open>initialize\<close> reads
  and is left out.\<close>

definition indexText :: "string \<Rightarrow> string \<Rightarrow> storage_manager \<Rightarrow> storage_manager" where
  "indexText entityId txt st =
     (if txt = [] then st
      else st\<lparr>text_index := fold (\<lambda>token idx. index_add token entityId idx) (tokenizeText txt) (text_index st)\<rparr>)"

fun js_String :: "metaval \<Rightarrow> string" where
  "js_String (MStr s) = s"
| "js_String (MArr xs) = concat (case xs of [] \<Rightarrow> [] | y # ys \<Rightarrow> y # map (\<lambda>z. '','' @ z) ys)"
| "js_String MNull = ''null''"

definition indexMetadataValue ::
  "string \<Rightarrow> string \<Rightarrow> metaval \<Rightarrow> (string \<times> string id_index) list \<Rightarrow> (string \<times> string id_index) list" where
  "indexMetadataValue entityId key v midx =
     (let stringValue = js_String v;
          valueMap = (case map_of midx key of None \<Rightarrow> [] | Some m \<Rightarrow> m)
      in AList.update key (index_add stringValue entityId valueMap) midx)"

fun indexMetadataEntry ::
  "string \<Rightarrow> string \<times> metaval \<Rightarrow> (string \<times> string id_index) list \<Rightarrow> (string \<times> string id_index) list" where
  "indexMetadataEntry entityId (key, MNull) midx = midx"
| "indexMetadataEntry entityId (key, MArr items) midx =
     fold (\<lambda>item. indexMetadataValue entityId key (MStr item)) items midx"
| "indexMetadataEntry entityId (key, MStr s) midx = indexMetadataValue entityId key (MStr s) midx"

definition indexMetadata :: "string \<Rightarrow> (string \<times> metaval) list \<Rightarrow> storage_manager \<Rightarrow> storage_manager" where
  "indexMetadata entityId md st =
     st\<lparr>metadata_index := fold (indexMetadataEntry entityId) md (metadata_index st)\<rparr>"

definition indexAgentId :: "string \<Rightarrow> string \<Rightarrow> storage_manager \<Rightarrow> storage_manager" where
  "indexAgentId entityId a st =
     (if a = [] then st else st\<lparr>agentId_index := index_add a entityId (agentId_index st)\<rparr>)"

definition indexEntity :: "entity \<Rightarrow> storage_manager \<Rightarrow> storage_manager" where
  "indexEntity e st =
     (let st1 = (if content e \<noteq> [] then indexText (ent_id e) (content e) st else st);
          st2 = (if ent_name e \<noteq> [] then indexText (ent_id e) (ent_name e) st1 else st1);
          st3 = (if description e \<noteq> [] then indexText (ent_id e) (description e) st2 else st2);
          st4 = (case metadata e of None \<Rightarrow> st3 | Some md \<Rightarrow> indexMetadata (ent_id e) md st3);
          st5 = (case tags e of None \<Rightarrow> st4
                 | Some ts \<Rightarrow> indexMetadata (ent_id e) [(''tags'', MArr ts)] st4)
      in if agentId e \<noteq> [] then indexAgentId (ent_id e) (agentId e) st5 else st5)"

text \<open>\<open>_removeEntityFromIndices\<close>: the id leaves every set of the text and metadata
  indices, and the set of the entity's agent.\<close>

definition removeEntityFromIndices :: "entity \<Rightarrow> storage_manager \<Rightarrow> storage_manager" where
  "removeEntityFromIndices e st =
     st\<lparr> text_index := map (\<lambda>(k, s). (k, set_delete (ent_id e) s)) (text_index st),
         metadata_index :=
           map (\<lambda>(k, vm). (k, map (\<lambda>(v, s). (v, set_delete (ent_id e) s)) vm)) (metadata_index st),
         agentId_index :=
           (if agentId e \<noteq> [] \<and> map_of (agentId_index st) (agentId e) \<noteq> None
            then map (\<lambda>(k, s). (k, if k = agentId e then set_delete (ent_id e) s else s))
                   (agentId_index st)
            else agentId_index st) \<rparr>"

text \<open>\<open>storeEntity(entity, context = 'shared')\<close>.  \<open>rnd\<close> is the text
  \<open>Date.now() + '_' + randomBytes\<close> of a generated id, \<open>t1\<close> and \<open>t2\<close> are the two
  clock readings.  Nothing is written before the validation error is raised.\<close>

definition storeEntity ::
  "storage_manager \<Rightarrow> entity \<Rightarrow> string option \<Rightarrow> string \<Rightarrow> string \<Rightarrow> string
     \<Rightarrow> error + (storage_manager \<times> entity)" where
  "storeEntity st entity ctx rnd t1 t2 =
     (let c = (case ctx of None \<Rightarrow> ''shared'' | Some x \<Rightarrow> x);
          e1 = (if ent_id entity = [] then entity\<lparr>ent_id := ''entity_'' @ rnd\<rparr> else entity)
      in if ent_type e1 = [] then Inl (Error ''Entity must have a type'')
         else
           let e2 = e1\<lparr>created := (if created e1 = [] then t1 else created e1), updated := t2\<rparr>;
               (dir, entityPath) = getEntityPath e2 c;
               st1 = mkdir dir st;
               st2 = st1\<lparr>files := AList.update entityPath e2 (files st1)\<rparr>;
               st3 = indexEntity e2 st2;
               st4 = cacheEntity e2 st3
           in Inr (st4, e2))"

text \<open>\<open>_readEntityFile\<close>: \<open>null\<close> for an absent file; a file that is read is cached.\<close>

definition readEntityFile :: "storage_manager \<Rightarrow> file_path \<Rightarrow> storage_manager \<times> entity option" where
  "readEntityFile st p =
     (case map_of (files st) p of
        None \<Rightarrow> (st, None)
      | Some e \<Rightarrow> (cacheEntity e st, Some e))"

text \<open>The loop over the subdirectories that \<open>readdir\<close> lists, of \<open>_findEntityInContext\<close>.\<close>

fun findInDirs ::
  "storage_manager \<Rightarrow> (string \<Rightarrow> directory) \<Rightarrow> string list \<Rightarrow> string
     \<Rightarrow> (storage_manager \<times> entity) option" where
  "findInDirs st mk [] i = None"
| "findInDirs st mk (d # ds) i =
     (case readEntityFile st (mk d, i) of
        (st', Some e) \<Rightarrow> Some (st', e)
      | (st', None) \<Rightarrow> findInDirs st' mk ds i)"

definition findEntityInContext ::
  "storage_manager \<Rightarrow> string \<Rightarrow> string \<Rightarrow> error + (storage_manager \<times> entity)" where
  "findEntityInContext st i ctx =
     (let found =
        (if ctx = ''agent'' then findInDirs st Agents (agentDirs st) i
         else if ctx = ''project'' then findInDirs st Projects (projectDirs st) i
         else if ctx = ''template'' then findInDirs st Templates (templateDirs st) i
         else if ctx = ''shared'' then
           (case readEntityFile st (Shared, i) of
              (st', Some e) \<Rightarrow> Some (st', e) | (st', None) \<Rightarrow> None)
         else None)
      in case found of
           Some r \<Rightarrow> Inr r
         | None \<Rightarrow> Inl (Error (''Entity not found: '' @ i)))"

text \<open>The loop \<open>for (const ctx of ['agent', 'project', 'template', 'shared'])\<close> of
  \<open>getEntity\<close>, which swallows the error of each probe.\<close>

fun findInContexts ::
  "storage_manager \<Rightarrow> string \<Rightarrow> string list \<Rightarrow> error + (storage_manager \<times> entity)" where
  "findInContexts st i [] = Inl (Error (''Entity not found: '' @ i))"
| "findInContexts st i (ctx # ctxs) =
     (case findEntityInContext st i ctx of
        Inr r \<Rightarrow> Inr r
      | Inl err \<Rightarrow> findInContexts st i ctxs)"

definition getEntity ::
  "storage_manager \<Rightarrow> string \<Rightarrow> string option \<Rightarrow> error + (storage_manager \<times> entity)" where
  "getEntity st i ctx =
     (case map_of (entityCache st) i of
        Some e \<Rightarrow> Inr (st, e)
      | None \<Rightarrow>
          if \<not> truthy ctx then findInContexts st i [''agent'', ''project'', ''template'', ''shared'']
          else findEntityInContext st i (the ctx))"

text \<open>\<open>deleteEntity\<close>.  The indices and the cache are changed before \<open>fs.unlink\<close> runs, so
  the state is returned beside the outcome.  The function has no \<open>return false\<close>; the
  result type keeps the boolean of the source.\<close>

definition deleteEntity ::
  "storage_manager \<Rightarrow> string \<Rightarrow> string option \<Rightarrow> storage_manager \<times> (error + bool)" where
  "deleteEntity st i ctx =
     (case getEntity st i ctx of
        Inl err \<Rightarrow> (st, Inl err)
      | Inr (st1, entity) \<Rightarrow>
          let c = (if truthy ctx then the ctx else getEntityContext entity);
              (dir, entityPath) = getEntityPath entity c;
              st2 = removeEntityFromIndices entity st1;
              st3 = st2\<lparr>entityCache := AList.delete i (entityCache st2)\<rparr>
          in case map_of (files st3) entityPath of
               None \<Rightarrow> (st3, Inl (SysError ''ENOENT''))
             | Some old \<Rightarrow> (st3\<lparr>files := AList.delete entityPath (files st3)\<rparr>, Inr True))"

section \<open>KnowledgeGraph\<close>

record knowledge_graph =
  storageManager :: storage_manager
  relFiles :: "(string \<times> relationship) list"
  source_index :: "string id_index"
  target_index :: "string id_index"
  type_index :: "string id_index"
  relationshipCache :: "(string \<times> relationship) list"
  rel_maxCacheSize :: int

definition new_knowledge_graph ::
  "storage_manager \<Rightarrow> (string \<times> relationship) list \<Rightarrow> int \<Rightarrow> knowledge_graph" where
  "new_knowledge_graph sm rfs optMaxCacheSize =
     \<lparr> storageManager = sm, relFiles = rfs, source_index = [], target_index = [],
       type_index = [], relationshipCache = [],
       rel_maxCacheSize = (if optMaxCacheSize = 0 then 1000 else optMaxCacheSize) \<rparr>"

text \<open>\<open>_indexRelationship\<close>, \<open>_removeRelationshipFromIndices\<close>, \<open>_cacheRelationship\<close>.\<close>

definition indexRelationship :: "relationship \<Rightarrow> knowledge_graph \<Rightarrow> knowledge_graph" where
  "indexRelationship r kg =
     kg\<lparr> source_index := index_add (sourceId r) (rel_id r) (source_index kg),
         target_index := index_add (targetId r) (rel_id r) (target_index kg),
         type_index := index_add (rel_type r) (rel_id r) (type_index kg) \<rparr>"

definition index_remove :: "'k \<Rightarrow> string \<Rightarrow> 'k id_index \<Rightarrow> 'k id_index" where
  "index_remove k i idx =
     (case map_of idx k of
        None \<Rightarrow> idx
      | Some s \<Rightarrow>
          (let s' = set_delete i s
           in if s' = [] then AList.delete k idx else AList.update k s' idx))"

definition removeRelationshipFromIndices :: "relationship \<Rightarrow> knowledge_graph \<Rightarrow> knowledge_graph" where
  "removeRelationshipFromIndices r kg =
     kg\<lparr> source_index := index_remove (sourceId r) (rel_id r) (source_index kg),
         target_index := index_remove (targetId r) (rel_id r) (target_index kg),
         type_index := index_remove (rel_type r) (rel_id r) (type_index kg) \<rparr>"

definition cacheRelationship :: "relationship \<Rightarrow> knowledge_graph \<Rightarrow> knowledge_graph" where
  "cacheRelationship r kg =
     kg\<lparr>relationshipCache := cache_put (rel_maxCacheSize kg) (rel_id r) r (relationshipCache kg)\<rparr>"

text \<open>\<open>_loadIndices\<close>, run by \<open>initialize\<close>: every relationship file is indexed and
  cached.\<close>

definition loadIndices :: "knowledge_graph \<Rightarrow> knowledge_graph" where
  "loadIndices kg =
     fold (\<lambda>(f, r) g. cacheRelationship r (indexRelationship r g)) (relFiles kg) kg"

text \<open>\<open>createRelationship\<close>.\<close>

definition createRelationship ::
  "knowledge_graph \<Rightarrow> relationship \<Rightarrow> string \<Rightarrow> string \<Rightarrow> string
     \<Rightarrow> error + (knowledge_graph \<times> relationship)" where
  "createRelationship kg r rnd t1 t2 =
     (if sourceId r = [] then Inl (Error ''Relationship must have a source ID'')
      else if targetId r = [] then Inl (Error ''Relationship must have a target ID'')
      else if rel_type r = [] then Inl (Error ''Relationship must have a type'')
      else
        (let r1 = (if rel_id r = [] then r\<lparr>rel_id := ''rel_'' @ rnd\<rparr> else r);
             r2 = r1\<lparr>rel_created := (if rel_created r1 = [] then t1 else rel_created r1),
                     rel_updated := t2\<rparr>;
             kg1 = kg\<lparr>relFiles := AList.update (rel_id r2) r2 (relFiles kg)\<rparr>;
             kg2 = indexRelationship r2 kg1;
             kg3 = cacheRelationship r2 kg2
         in Inr (kg3, r2)))"

text \<open>\<open>fs.readFile\<close> and \<open>fs.unlink\<close> on the relations directory.\<close>

definition readRelFile :: "knowledge_graph \<Rightarrow> string \<Rightarrow> error + relationship" where
  "readRelFile kg i =
     (case map_of (relFiles kg) i of None \<Rightarrow> Inl (SysError ''ENOENT'') | Some r \<Rightarrow> Inr r)"

definition unlinkRelFile :: "knowledge_graph \<Rightarrow> string \<Rightarrow> error + knowledge_graph" where
  "unlinkRelFile kg i =
     (case map_of (relFiles kg) i of
        None \<Rightarrow> Inl (SysError ''ENOENT'')
      | Some r \<Rightarrow> Inr (kg\<lparr>relFiles := AList.delete i (relFiles kg)\<rparr>))"

text \<open>\<open>getRelationship\<close>: the cache first, then the file.  Its \<open>catch\<close> turns the
  \<open>ENOENT\<close> of \<open>readFile\<close> into a new plain \<open>Error\<close>.\<close>

definition getRelationship ::
  "knowledge_graph \<Rightarrow> string \<Rightarrow> error + (knowledge_graph \<times> relationship)" where
  "getRelationship kg i =
     (case map_of (relationshipCache kg) i of
        Some r \<Rightarrow> Inr (kg, r)
      | None \<Rightarrow>
          (case readRelFile kg i of
             Inr r \<Rightarrow> Inr (cacheRelationship r kg, r)
           | Inl err \<Rightarrow>
               if error_code err = Some ''ENOENT''
               then Inl (Error (''Relationship not found: '' @ i))
               else Inl err))"

text \<open>\<open>deleteRelationship\<close>.  The \<open>try\<close> block is evaluated first; the \<open>catch\<close> then
  returns \<open>false\<close> for an error whose \<open>code\<close> is \<open>ENOENT\<close> and rethrows any other.\<close>

definition deleteRelationship ::
  "knowledge_graph \<Rightarrow> string \<Rightarrow> knowledge_graph \<times> (error + bool)" where
  "deleteRelationship kg i =
     (let (kg', outcome) =
        (case getRelationship kg i of
           Inl err \<Rightarrow> (kg, Inl err)
         | Inr (kg1, r) \<Rightarrow>
             (let kg2 = removeRelationshipFromIndices r kg1;
                  kg3 = kg2\<lparr>relationshipCache := AList.delete i (relationshipCache kg2)\<rparr>
              in case unlinkRelFile kg3 i of
                   Inl err \<Rightarrow> (kg3, Inl err)
                 | Inr kg4 \<Rightarrow> (kg4, Inr True)))
      in case outcome of
           Inr b \<Rightarrow> (kg', Inr b)
         | Inl err \<Rightarrow>
             if error_code err = Some ''ENOENT'' then (kg', Inr False) else (kg', Inl err))"

text \<open>\<open>listRelationships\<close>.  \<open>collectRels\<close> is the loop over the ids of one index set:
  a relationship that cannot be read is skipped.\<close>

fun collectRels ::
  "string option \<Rightarrow> string list \<Rightarrow> knowledge_graph \<times> relationship list
     \<Rightarrow> knowledge_graph \<times> relationship list" where
  "collectRels ty [] (kg, acc) = (kg, acc)"
| "collectRels ty (i # ids) (kg, acc) =
     (case getRelationship kg i of
        Inl err \<Rightarrow> collectRels ty ids (kg, acc)
      | Inr (kg', r) \<Rightarrow>
          collectRels ty ids
            (kg', if \<not> truthy ty \<or> rel_type r = the ty then acc @ [r] else acc))"

record rel_listing =
  lr_relationships :: "relationship list"
  lr_total :: nat
  lr_limit :: int
  lr_offset :: int

text \<open>The two gathering blocks of \<open>listRelationships\<close> (source index for outgoing,
  target index for incoming), before pagination.\<close>

definition gatherRelationships ::
  "knowledge_graph \<Rightarrow> string \<Rightarrow> string option \<Rightarrow> string
     \<Rightarrow> knowledge_graph \<times> relationship list" where
  "gatherRelationships kg entityId ty direction =
     (let s1 =
        (if direction = ''outgoing'' \<or> direction = ''both'' then
           (case map_of (source_index kg) entityId of
              None \<Rightarrow> (kg, [])
            | Some ids \<Rightarrow> collectRels ty ids (kg, []))
         else (kg, []))
      in if direction = ''incoming'' \<or> direction = ''both'' then
           (case map_of (target_index (fst s1)) entityId of
              None \<Rightarrow> s1
            | Some ids \<Rightarrow> collectRels ty ids s1)
         else s1)"

definition listRelationships ::
  "knowledge_graph \<Rightarrow> string \<Rightarrow> string option \<Rightarrow> string \<Rightarrow> int \<Rightarrow> int
     \<Rightarrow> knowledge_graph \<times> rel_listing" where
  "listRelationships kg entityId ty direction limit offset =
     (let gathered = gatherRelationships kg entityId ty direction;
          rels = snd gathered
      in (fst gathered,
          \<lparr> lr_relationships = js_slice rels offset (offset + limit),
            lr_total = length rels, lr_limit = limit, lr_offset = offset \<rparr>))"

subsection \<open>Graph traversal\<close>

record path_step =
  relationshipId :: string
  relationshipType :: string
  direction :: string

record path_info =
  distance :: int
  path :: "path_step list"

record traversal =
  entities :: "entity list"
  relationships :: "relationship list"
  paths :: "string \<rightharpoonup> path_info"

text \<open>The variables of \<open>_traverseBFS\<close>: the graph object (whose caches change as the
  traversal reads), the visited set, the result under construction and the queue.\<close>

record bfs_state =
  bfs_kg :: knowledge_graph
  visited :: "string set"
  result :: traversal
  queue :: "(string \<times> int) list"

text \<open>The body of \<open>for (const relationship of relationships)\<close>, for the dequeued
  \<open>entityId\<close> at \<open>depth\<close>, block by block.\<close>

text \<open>``Add relationship to result'': \<open>result.relationships\<close> holds each id once.\<close>

definition addRelationship :: "relationship \<Rightarrow> traversal \<Rightarrow> traversal" where
  "addRelationship r res =
     (if rel_id r \<in> rel_id ` set (relationships res) then res
      else res\<lparr>relationships := relationships res @ [r]\<rparr>)"

text \<open>``Determine the connected entity''.\<close>

definition connectedEntityId :: "string \<Rightarrow> relationship \<Rightarrow> string" where
  "connectedEntityId entityId r = (if sourceId r = entityId then targetId r else sourceId r)"

text \<open>The \<open>try\<close> block once the connected entity has been resolved: the entity is pushed,
  then its path is recorded and it is enqueued.  Reading \<open>result.paths[entityId].path\<close> of an
  entity without a path entry would raise a \<open>TypeError\<close>, which the \<open>catch\<close> swallows
  after the push.\<close>

definition addConnected ::
  "string \<Rightarrow> int \<Rightarrow> relationship \<Rightarrow> storage_manager \<Rightarrow> entity \<Rightarrow> bfs_state \<Rightarrow> bfs_state" where
  "addConnected entityId depth r sm' connectedEntity s2 =
     (let s3 = s2\<lparr> bfs_kg := (bfs_kg s2)\<lparr>storageManager := sm'\<rparr>,
                    result := (result s2)\<lparr>entities := entities (result s2) @ [connectedEntity]\<rparr> \<rparr>
      in case paths (result s3) entityId of
           None \<Rightarrow> s3
         | Some cur \<Rightarrow>
             s3\<lparr> result := (result s3)\<lparr>paths :=
                   (paths (result s3))(connectedEntityId entityId r \<mapsto>
                     \<lparr> distance = depth + 1,
                       path = path cur @
                         [\<lparr> relationshipId = rel_id r,
                            relationshipType = rel_type r,
                            direction = (if sourceId r = entityId
                                         then ''outgoing'' else ''incoming'') \<rparr>] \<rparr>)\<rparr>,
                 queue := queue s3 @ [(connectedEntityId entityId r, depth + 1)] \<rparr>)"

text \<open>One pass through the loop body.  The connected entity is marked visited before it
  is resolved; an entity that does not resolve is skipped (the source logs a warning).\<close>

definition visitRelationship ::
  "string \<Rightarrow> int \<Rightarrow> string list option \<Rightarrow> relationship \<Rightarrow> bfs_state \<Rightarrow> bfs_state" where
  "visitRelationship entityId depth relationshipTypes r s =
     (if (case relationshipTypes of None \<Rightarrow> False | Some tys \<Rightarrow> rel_type r \<notin> set tys) then s
      else
        (let s1 = s\<lparr>result := addRelationship r (result s)\<rparr>
         in if connectedEntityId entityId r \<in> visited s1 then s1
            else
              (let s2 = s1\<lparr>visited := insert (connectedEntityId entityId r) (visited s1)\<rparr>
               in case getEntity (storageManager (bfs_kg s2)) (connectedEntityId entityId r) None of
                    Inl err \<Rightarrow> s2
                  | Inr (sm', connectedEntity) \<Rightarrow>
                      addConnected entityId depth r sm' connectedEntity s2)))"

text \<open>The \<open>while (queue.length > 0)\<close> loop.  Whether it ends is not visible in its text,
  so it is a partial function: \<open>None\<close> is the loop that never ends.\<close>

partial_function (option) traverseBFS_loop ::
  "string list option \<Rightarrow> int \<Rightarrow> string \<Rightarrow> bfs_state \<Rightarrow> bfs_state option" where
  "traverseBFS_loop relationshipTypes maxDepth dir s =
     (case queue s of
        [] \<Rightarrow> Some s
      | item # rest \<Rightarrow>
          (if snd item \<ge> maxDepth
           then traverseBFS_loop relationshipTypes maxDepth dir (s\<lparr>queue := rest\<rparr>)
           else traverseBFS_loop relationshipTypes maxDepth dir
                  (fold (visitRelationship (fst item) (snd item) relationshipTypes)
                     (lr_relationships
                        (snd (listRelationships (bfs_kg s) (fst item) None dir 1000 0)))
                     (s\<lparr> queue := rest,
                         bfs_kg := fst (listRelationships (bfs_kg s) (fst item) None dir 1000 0) \<rparr>))))"

declare traverseBFS_loop.simps [code]

definition traverseBFS ::
  "string \<Rightarrow> string list option \<Rightarrow> int \<Rightarrow> string \<Rightarrow> knowledge_graph \<Rightarrow> string set \<Rightarrow> traversal
     \<Rightarrow> bfs_state option" where
  "traverseBFS startEntityId relationshipTypes maxDepth dir kg vis res =
     traverseBFS_loop relationshipTypes maxDepth dir
       \<lparr> bfs_kg = kg, visited = vis, result = res, queue = [(startEntityId, 0)] \<rparr>"

text \<open>\<open>traverseGraph(startEntityId, relationshipTypes = null, maxDepth = 3,
  direction = 'both')\<close>.  The outer \<open>option\<close> is termination, the sum is the exception.\<close>

definition traverseGraph ::
  "knowledge_graph \<Rightarrow> string \<Rightarrow> string list option \<Rightarrow> int \<Rightarrow> string
     \<Rightarrow> (error + (knowledge_graph \<times> traversal)) option" where
  "traverseGraph kg startEntityId relationshipTypes maxDepth dir =
     (case getEntity (storageManager kg) startEntityId None of
        Inl err \<Rightarrow> Some (Inl err)
      | Inr (sm', startEntity) \<Rightarrow>
          map_option (\<lambda>s. Inr (bfs_kg s, result s))
            (traverseBFS startEntityId relationshipTypes maxDepth dir
               (kg\<lparr>storageManager := sm'\<rparr>) {startEntityId}
               \<lparr> entities = [startEntity], relationships = [],
                 paths = [startEntityId \<mapsto> \<lparr>distance = 0, path = []\<rparr>] \<rparr>))"

subsection \<open>Common connections\<close>


fun first_error :: "(error + 'a) list \<Rightarrow> error option" where
  "first_error [] = None"
| "first_error (Inl err # xs) = Some err"
| "first_error (Inr v # xs) = first_error xs"

fun successes :: "(error + 'a) list \<Rightarrow> 'a list" where
  "successes [] = []"
| "successes (Inl err # xs) = successes xs"
| "successes (Inr v # xs) = v # successes xs"


text \<open>\<open>new Set(result.entities.map(entity => entity.id))\<close> in insertion order.\<close>

definition id_set :: "string list \<Rightarrow> string list" where
  "id_set xs = fold set_add xs []"



section \<open>QueryEngine\<close>

record search_options =
  opt_limit :: int
  opt_offset :: int
  opt_threshold :: rat
  opt_context :: "string option"
  opt_type :: "string option"
  opt_agentId :: "string option"
  opt_matchAll :: bool

text \<open>The defaults of the destructured \<open>options\<close>.\<close>

definition default_options :: search_options where
  "default_options =
     \<lparr> opt_limit = 10, opt_offset = 0, opt_threshold = 0, opt_context = None,
       opt_type = None, opt_agentId = None, opt_matchAll = True \<rparr>"

text \<open>The scoring loop of \<open>searchByText\<close>: \<open>matchingEntityIds\<close> maps an entity id to
  the number of query tokens whose index set holds it.\<close>

definition bump :: "string \<Rightarrow> (string \<times> nat) list \<Rightarrow> (string \<times> nat) list" where
  "bump entityId m =
     AList.update entityId ((case map_of m entityId of None \<Rightarrow> 0 | Some c \<Rightarrow> c) + 1) m"

definition countMatches :: "string id_index \<Rightarrow> string list \<Rightarrow> (string \<times> nat) list" where
  "countMatches idx queryTokens =
     fold (\<lambda>token m. case map_of idx token of None \<Rightarrow> m | Some ents \<Rightarrow> fold bump ents m)
       queryTokens []"

text \<open>The filters on \<open>agentId\<close> and \<open>type\<close>, which look only into the cache.\<close>

definition cache_filter :: "storage_manager \<Rightarrow> search_options \<Rightarrow> string \<Rightarrow> bool" where
  "cache_filter st opts entityId =
     ((if truthy (opt_agentId opts)
       then (case map_of (entityCache st) entityId of
               None \<Rightarrow> False | Some e \<Rightarrow> agentId e = the (opt_agentId opts))
       else True) \<and>
      (if truthy (opt_type opts)
       then (case map_of (entityCache st) entityId of
               None \<Rightarrow> False | Some e \<Rightarrow> ent_type e = the (opt_type opts))
       else True))"

text \<open>Resolution of one page of results: an id that \<open>getEntity\<close> cannot resolve is
  dropped.\<close>

fun resolveItems ::
  "string option \<Rightarrow> (string \<times> 'a) list \<Rightarrow> storage_manager \<Rightarrow> storage_manager \<times> (entity \<times> 'a) list" where
  "resolveItems ctx [] st = (st, [])"
| "resolveItems ctx ((i, x) # items) st =
     (case getEntity st i ctx of
        Inl err \<Rightarrow> resolveItems ctx items st
      | Inr (st1, e) \<Rightarrow> (case resolveItems ctx items st1 of (st', rs) \<Rightarrow> (st', (e, x) # rs)))"

record 'a search_result =
  sr_results :: "(entity \<times> 'a) list"
  sr_total :: nat
  sr_limit :: int
  sr_offset :: int

text \<open>The scored entries of \<open>searchByText\<close>: each count divided by the number of query
  tokens.\<close>

definition scoreEntities :: "string id_index \<Rightarrow> string list \<Rightarrow> (string \<times> rat) list" where
  "scoreEntities idx queryTokens =
     map (\<lambda>(entityId, n). (entityId, of_nat n / of_nat (length queryTokens)))
       (countMatches idx queryTokens)"

definition searchByText ::
  "storage_manager \<Rightarrow> string \<Rightarrow> search_options \<Rightarrow> storage_manager \<times> rat search_result" where
  "searchByText st query opts =
     (let queryTokens = tokenizeText query;
          scored = scoreEntities (text_index st) queryTokens;
          results0 = sort_key (\<lambda>item. - snd item)
                       (filter (\<lambda>item. snd item \<ge> opt_threshold opts) scored);
          results = filter (\<lambda>item. cache_filter st opts (fst item)) results0;
          paginatedResults = js_slice results (opt_offset opts) (opt_offset opts + opt_limit opts);
          resolved = resolveItems (opt_context opts) paginatedResults st
      in (fst resolved,
          \<lparr> sr_results = snd resolved, sr_total = length results,
            sr_limit = opt_limit opts, sr_offset = opt_offset opts \<rparr>))"

text \<open>\<open>searchByMetadata\<close>: the index sets of the key/value pairs found in the metadata
  index, in the order of \<open>Object.entries(metadata)\<close>.\<close>

definition matchingSets ::
  "(string \<times> string id_index) list \<Rightarrow> (string \<times> metaval) list \<Rightarrow> string list list" where
  "matchingSets midx md =
     concat (map (\<lambda>(key, v). case map_of midx key of
                                 None \<Rightarrow> []
                               | Some valueMap \<Rightarrow>
                                   (case map_of valueMap (js_String v) of
                                      None \<Rightarrow> [] | Some s \<Rightarrow> [s])) md)"

definition combineSets :: "bool \<Rightarrow> string list list \<Rightarrow> string list" where
  "combineSets matchAll sets =
     (if matchAll
      then (case sets of [] \<Rightarrow> []
            | s0 # rest \<Rightarrow> fold (\<lambda>s acc. filter (\<lambda>i. i \<in> set s) acc) rest (id_set s0))
      else fold (\<lambda>s acc. fold set_add s acc) sets [])"

definition searchByMetadata ::
  "storage_manager \<Rightarrow> (string \<times> metaval) list \<Rightarrow> search_options
     \<Rightarrow> storage_manager \<times> unit search_result" where
  "searchByMetadata st md opts =
     (let sets = matchingSets (metadata_index st) md
      in if length sets = 0
         then (st, \<lparr> sr_results = [], sr_total = 0,
                     sr_limit = opt_limit opts, sr_offset = opt_offset opts \<rparr>)
         else
           (let matchingEntityIds = combineSets (opt_matchAll opts) sets;
                results = filter (cache_filter st opts) matchingEntityIds;
                paginatedResults =
                  js_slice results (opt_offset opts) (opt_offset opts + opt_limit opts);
                resolved = resolveItems (opt_context opts) (map (\<lambda>i. (i, ())) paginatedResults) st
            in (fst resolved,
                \<lparr> sr_results = snd resolved, sr_total = length results,
                  sr_limit = opt_limit opts, sr_offset = opt_offset opts \<rparr>)))"

section \<open>Well-formed states and example data\<close>

text \<open>A JS \<open>Map\<close> has distinct keys, and the cache never holds more than
  \<open>maxCacheSize\<close> entries after a \<open>_cacheEntity\<close>; the constructor's
  \<open>options.maxCacheSize || 1000\<close> is positive unless a negative size is configured.\<close>

definition cache_ok :: "storage_manager \<Rightarrow> bool" where
  "cache_ok st =
     (1 \<le> maxCacheSize st \<and> int (length (entityCache st)) \<le> maxCacheSize st \<and>
      distinct (map fst (entityCache st)))"

definition blank_entity :: entity where
  "blank_entity =
     \<lparr> ent_id = [], ent_type = [], created = [], updated = [], agentId = [], projectId = [],
       templateId = [], content = [], ent_name = [], description = [], metadata = None,
       tags = None \<rparr>"

definition mk_entity :: "string \<Rightarrow> string \<Rightarrow> entity" where
  "mk_entity i ty = blank_entity\<lparr>ent_id := i, ent_type := ty\<rparr>"

definition empty_storage :: storage_manager where
  "empty_storage = new_storage_manager [] [] [] [] 0"

definition mk_rel :: "string \<Rightarrow> string \<Rightarrow> string \<Rightarrow> string \<Rightarrow> relationship" where
  "mk_rel i src tgt ty =
     \<lparr> rel_id = i, sourceId = src, targetId = tgt, rel_type = ty, properties = [],
       rel_created = [], rel_updated = [] \<rparr>"

definition empty_graph :: knowledge_graph where
  "empty_graph = new_knowledge_graph empty_storage [] 0"

definition cached_only_graph :: knowledge_graph where
  "cached_only_graph =
     empty_graph\<lparr>relationshipCache := [(''r1'', mk_rel ''r1'' ''A'' ''B'' ''next'')]\<rparr>"

section \<open>Termination of the traversal\<close>

text \<open>The relationships a graph object can ever hand out are those of its cache and of its
  files; the entity ids they mention bound the visited set.\<close>

definition kg_rels :: "knowledge_graph \<Rightarrow> relationship set" where
  "kg_rels kg = snd ` set (relationshipCache kg) \<union> snd ` set (relFiles kg)"

definition kg_nodes :: "knowledge_graph \<Rightarrow> string set" where
  "kg_nodes kg = sourceId ` kg_rels kg \<union> targetId ` kg_rels kg"

definition bfs_measure :: "bfs_state \<Rightarrow> nat \<times> nat" where
  "bfs_measure s = (card (kg_nodes (bfs_kg s) - visited s), length (queue s))"

section \<open>Example graphs\<close>

text \<open>States are built with the operations of the model, from the empty store.\<close>

fun store_each :: "string option \<Rightarrow> entity list \<Rightarrow> storage_manager \<Rightarrow> storage_manager" where
  "store_each ctx [] st = st"
| "store_each ctx (e # es) st =
     (case storeEntity st e ctx ''r'' ''t1'' ''t2'' of
        Inl err \<Rightarrow> store_each ctx es st
      | Inr (st', s) \<Rightarrow> store_each ctx es st')"

fun create_each :: "relationship list \<Rightarrow> knowledge_graph \<Rightarrow> knowledge_graph" where
  "create_each [] kg = kg"
| "create_each (r # rs) kg =
     (case createRelationship kg r ''r'' ''t1'' ''t2'' of
        Inl err \<Rightarrow> create_each rs kg
      | Inr (kg', r') \<Rightarrow> create_each rs kg')"

definition graph_of :: "string list \<Rightarrow> relationship list \<Rightarrow> knowledge_graph" where
  "graph_of ids rs =
     create_each rs
       (new_knowledge_graph
          (store_each (Some ''shared'') (map (\<lambda>i. mk_entity i ''node'') ids) empty_storage) [] 0)"

definition chain_graph :: knowledge_graph where
  "chain_graph =
     graph_of [''A'', ''B'', ''C'', ''D'']
       [mk_rel ''r1'' ''A'' ''B'' ''next'', mk_rel ''r2'' ''B'' ''C'' ''next'',
        mk_rel ''r3'' ''C'' ''D'' ''next'']"

definition node :: "string \<Rightarrow> entity" where
  "node i = (mk_entity i ''node'')\<lparr>created := ''t1'', updated := ''t2''\<rparr>"

section \<open>Well-formed graph objects\<close>

text \<open>In a graph object built by the operations, a relationship is cached and filed under
  its own id, and an index set holds an id once (it is a JS \<open>Set\<close>).\<close>

definition kg_wf :: "knowledge_graph \<Rightarrow> bool" where
  "kg_wf kg =
     ((\<forall>(k, x) \<in> set (relationshipCache kg). rel_id x = k) \<and>
      (\<forall>(k, x) \<in> set (relFiles kg). rel_id x = k) \<and>
      (\<forall>(k, ids) \<in> set (source_index kg). distinct ids) \<and>
      (\<forall>(k, ids) \<in> set (target_index kg). distinct ids))"

text \<open>While relationships are read, the relationship \<open>r\<close> stays the one that its id
  resolves to: its file is there, and the cache holds it or nothing under the id.\<close>

definition resolves_to :: "knowledge_graph \<Rightarrow> relationship \<Rightarrow> bool" where
  "resolves_to kg r =
     (kg_wf kg \<and> map_of (relFiles kg) (rel_id r) = Some r \<and>
      (map_of (relationshipCache kg) (rel_id r) = None \<or>
       map_of (relationshipCache kg) (rel_id r) = Some r))"

definition stamped :: "relationship \<Rightarrow> relationship" where
  "stamped r = r\<lparr>rel_created := ''t1'', rel_updated := ''t2''\<rparr>"

definition self_loop :: relationship where
  "self_loop = mk_rel ''r1'' ''A'' ''A'' ''self''"

definition loop_graph :: knowledge_graph where
  "loop_graph = graph_of [''A''] [self_loop]"

definition loop_graph_before :: knowledge_graph where
  "loop_graph_before = graph_of [''A''] []"

section \<open>Text search\<close>

text \<open>The score of the specification: the number of query tokens whose index set holds
  the entity id, counted with repetition.\<close>

definition token_hits :: "string id_index \<Rightarrow> string list \<Rightarrow> string \<Rightarrow> nat" where
  "token_hits idx queryTokens i =
     length (filter (\<lambda>token. case map_of idx token of None \<Rightarrow> False | Some ents \<Rightarrow> i \<in> set ents)
               queryTokens)"

definition index_wf :: "'k id_index \<Rightarrow> bool" where
  "index_wf idx = (\<forall>(k, ids) \<in> set idx. distinct ids)"

definition tally :: "(string \<times> nat) list \<Rightarrow> string \<Rightarrow> nat" where
  "tally m i = (case map_of m i of None \<Rightarrow> 0 | Some c \<Rightarrow> c)"

definition tally_ok :: "(string \<times> nat) list \<Rightarrow> bool" where
  "tally_ok m = (distinct (map fst m) \<and> (\<forall>(i, c) \<in> set m. c > 0))"

text \<open>The example of the specification: the entity \<open>x\<close> with content
  \<open>alpha beta gamma\<close>, stored in the empty store (with a type, which \<open>storeEntity\<close>
  requires).\<close>

definition entity_x :: entity where
  "entity_x = (mk_entity ''x'' ''note'')\<lparr>content := ''alpha beta gamma''\<rparr>"

definition store_x :: storage_manager where
  "store_x = store_each None [entity_x] empty_storage"

text \<open>The example of the specification: two entities with metadata \<open>{color: "red"}\<close>
  and \<open>{color: "red", size: "large"}\<close>.\<close>

definition entity_red :: entity where
  "entity_red = (mk_entity ''e1'' ''item'')\<lparr>metadata := Some [(''color'', MStr ''red'')]\<rparr>"

definition entity_red_large :: entity where
  "entity_red_large =
     (mk_entity ''e2'' ''item'')\<lparr>metadata := Some [(''color'', MStr ''red''),
                                                   (''size'', MStr ''large'')]\<rparr>"

definition store_tagged :: storage_manager where
  "store_tagged = store_each None [entity_red, entity_red_large] empty_storage"

definition stored :: "entity \<Rightarrow> entity" where
  "stored e = e\<lparr>created := ''t1'', updated := ''t2''\<rparr>"

section \<open>Resolution of entity ids\<close>

text \<open>What the directories hold for an id, in the order in which \<open>getEntity\<close> without a
  context probes them; it depends on the files and the directory listings only.\<close>

fun probeDirs ::
  "(file_path \<times> entity) list \<Rightarrow> (string \<Rightarrow> directory) \<Rightarrow> string list \<Rightarrow> string \<Rightarrow> entity option" where
  "probeDirs fs mk [] i = None"
| "probeDirs fs mk (d # ds) i =
     (case map_of fs (mk d, i) of Some e \<Rightarrow> Some e | None \<Rightarrow> probeDirs fs mk ds i)"

definition probeContext :: "storage_manager \<Rightarrow> string \<Rightarrow> string \<Rightarrow> entity option" where
  "probeContext st i ctx =
     (if ctx = ''agent'' then probeDirs (files st) Agents (agentDirs st) i
      else if ctx = ''project'' then probeDirs (files st) Projects (projectDirs st) i
      else if ctx = ''template'' then probeDirs (files st) Templates (templateDirs st) i
      else if ctx = ''shared'' then map_of (files st) (Shared, i)
      else None)"

fun probeContexts :: "storage_manager \<Rightarrow> string \<Rightarrow> string list \<Rightarrow> entity option" where
  "probeContexts st i [] = None"
| "probeContexts st i (ctx # ctxs) =
     (case probeContext st i ctx of Some e \<Rightarrow> Some e | None \<Rightarrow> probeContexts st i ctxs)"

definition probe :: "storage_manager \<Rightarrow> string \<Rightarrow> entity option" where
  "probe st i = probeContexts st i [''agent'', ''project'', ''template'', ''shared'']"

text \<open>Whether \<open>getEntity(id)\<close> returns an entity in this state.\<close>

definition resolves :: "storage_manager \<Rightarrow> string \<Rightarrow> bool" where
  "resolves st i = (case getEntity st i None of Inl err \<Rightarrow> False | Inr r \<Rightarrow> True)"

text \<open>An entity is cached and filed under its own id.\<close>

definition sm_wf :: "storage_manager \<Rightarrow> bool" where
  "sm_wf st =
     ((\<forall>(k, e) \<in> set (entityCache st). ent_id e = k) \<and>
      (\<forall>(p, e) \<in> set (files st). ent_id e = snd p))"

section \<open>Dangling relationships\<close>

text \<open>What the traversal keeps true about an id \<open>T\<close> that does not resolve.\<close>

definition skips :: "string \<Rightarrow> bfs_state \<Rightarrow> bool" where
  "skips T s =
     (sm_wf (storageManager (bfs_kg s)) \<and> \<not> resolves (storageManager (bfs_kg s)) T \<and>
      T \<notin> ent_id ` set (entities (result s)))"

definition dangling_rel :: relationship where
  "dangling_rel = mk_rel ''r1'' ''A'' ''X'' ''next''"

definition dangling_graph :: knowledge_graph where
  "dangling_graph = graph_of [''A''] [dangling_rel]"

section \<open>Common connections\<close>





section \<open>Coherent caches\<close>

text \<open>A cache is coherent with the disk when every cached entry is what a read from the
  disk would give: a cached relationship is the content of its file, a cached entity is the
  entity that the probe of the directories finds.  Then a lookup gives the same answer
  whatever the cache holds.\<close>

definition rel_coherent :: "knowledge_graph \<Rightarrow> bool" where
  "rel_coherent kg =
     ((\<forall>(j, r) \<in> set (relFiles kg). rel_id r = j) \<and>
      (\<forall>(j, r) \<in> set (relationshipCache kg). map_of (relFiles kg) j = Some r))"

definition sm_coherent :: "storage_manager \<Rightarrow> bool" where
  "sm_coherent st =
     ((\<forall>(p, e) \<in> set (files st). ent_id e = snd p) \<and>
      (\<forall>(i, e) \<in> set (entityCache st). probe st i = Some e))"

definition kg_coherent :: "knowledge_graph \<Rightarrow> bool" where
  "kg_coherent kg = (rel_coherent kg \<and> sm_coherent (storageManager kg))"

text \<open>Two states over the same disk and the same relationship indices.\<close>

definition same_store :: "storage_manager \<Rightarrow> storage_manager \<Rightarrow> bool" where
  "same_store st st' =
     (files st' = files st \<and> agentDirs st' = agentDirs st \<and>
      projectDirs st' = projectDirs st \<and> templateDirs st' = templateDirs st)"

definition same_graph :: "knowledge_graph \<Rightarrow> knowledge_graph \<Rightarrow> bool" where
  "same_graph kg kg' =
     (relFiles kg' = relFiles kg \<and> source_index kg' = source_index kg \<and>
      target_index kg' = target_index kg \<and>
      same_store (storageManager kg) (storageManager kg'))"

text \<open>The relationships among \<open>ids\<close> that have a file, of the type asked for; and what
  \<open>listRelationships\<close> gathers for an entity when it reads every relationship from its
  file.\<close>

definition readable ::
  "(string \<times> relationship) list \<Rightarrow> string option \<Rightarrow> string list \<Rightarrow> relationship list" where
  "readable fs ty ids =
     filter (\<lambda>r. \<not> truthy ty \<or> rel_type r = the ty) (List.map_filter (map_of fs) ids)"

definition related ::
  "knowledge_graph \<Rightarrow> string \<Rightarrow> string option \<Rightarrow> string \<Rightarrow> relationship list" where
  "related kg x ty dir =
     (if dir = ''outgoing'' \<or> dir = ''both''
      then (case map_of (source_index kg) x of
              None \<Rightarrow> [] | Some ids \<Rightarrow> readable (relFiles kg) ty ids)
      else []) @
     (if dir = ''incoming'' \<or> dir = ''both''
      then (case map_of (target_index kg) x of
              None \<Rightarrow> [] | Some ids \<Rightarrow> readable (relFiles kg) ty ids)
      else [])"

section \<open>Hop counts\<close>

text \<open>The type filter of the loop body of \<open>_traverseBFS\<close>.\<close>

definition followed :: "string list option \<Rightarrow> relationship \<Rightarrow> bool" where
  "followed tys r = (case tys of None \<Rightarrow> True | Some ts \<Rightarrow> rel_type r \<in> set ts)"

text \<open>The entities one hop from \<open>x\<close>: the entities that resolve, at the other end of a
  relationship of a followed type that \<open>listRelationships\<close> lists for \<open>x\<close> in the given
  direction (as the traversal calls it).  \<open>hops kg tys dir a n\<close> are the entities at the end
  of a walk of \<open>n\<close> hops from \<open>a\<close>, and \<open>min_hops\<close> says that \<open>n\<close> is the least number
  of hops of a walk from \<open>a\<close> to \<open>b\<close>.\<close>

definition neighbours ::
  "knowledge_graph \<Rightarrow> string list option \<Rightarrow> string \<Rightarrow> string \<Rightarrow> string list" where
  "neighbours kg tys dir x =
     filter (resolves (storageManager kg))
       (map (connectedEntityId x)
          (filter (followed tys)
             (lr_relationships (snd (listRelationships kg x None dir 1000 0)))))"




section \<open>The invariant of the breadth-first loop\<close>



section \<open>Properties of the StorageManager\<close>

lemma getEntityPath_dir: "snd (getEntityPath e c) = (fst (getEntityPath e c), ent_id e)"
  by (simp add: getEntityPath_def Let_def)

lemma js_slice_take: "0 \<le> n \<Longrightarrow> js_slice xs 0 n = take (nat n) xs"
  by (auto simp: js_slice_def Let_def min_def)

lemma length_update_old: "k \<in> fst ` set c \<Longrightarrow> length (AList.update k v c) = length c"
  by (induct c) auto

lemma length_update_new: "k \<notin> fst ` set c \<Longrightarrow> AList.update k v c = c @ [(k, v)]"
  by (induct c) auto

lemma cache_put_old:
  assumes "k \<in> fst ` set c" "int (length c) \<le> mx"
  shows "cache_put mx k v c = AList.update k v c"
  using assms by (simp add: cache_put_def Let_def length_update_old)

lemma cache_put_new_fits:
  assumes "k \<notin> fst ` set c" "int (length c) < mx"
  shows "cache_put mx k v c = c @ [(k, v)]"
  using assms by (simp add: cache_put_def Let_def length_update_new)

lemma cache_put_new:
  "k \<notin> fst ` set c \<Longrightarrow>
   cache_put mx k v c =
     (let c1 = c @ [(k, v)] in
      if int (length c1) > mx
      then fold AList.delete (js_slice (map fst c1) 0 (int (length c1) - mx)) c1
      else c1)"
  by (simp add: cache_put_def length_update_new Let_def)

lemma cache_put_new_full:
  assumes "k \<notin> fst ` set c" "int (length c) = mx" "c = p # ps"
  shows "cache_put mx k v c = AList.delete (fst p) (ps @ [(k, v)])"
  using assms(2,3) by (subst cache_put_new[OF assms(1)]) (simp add: Let_def js_slice_take)

lemma cache_put_lookup:
  assumes "distinct (map fst c)" "int (length c) \<le> mx" "1 \<le> mx"
  shows "map_of (cache_put mx k v c) k = Some v"
proof (cases "k \<in> fst ` set c")
  case True
  then show ?thesis using assms by (simp add: cache_put_old AList.update_conv')
next
  case False
  show ?thesis
  proof (cases "int (length c) < mx")
    case True
    have "map_of c k = None" using False by (simp add: map_of_eq_None_iff)
    then show ?thesis using False True by (simp add: cache_put_new_fits map_add_def)
  next
    case full: False
    then obtain p ps where c: "c = p # ps" using assms by (cases c) auto
    have "map_of ps k = None" using False c by (auto simp: map_of_eq_None_iff)
    moreover have "int (length c) = mx" using full assms c by simp
    moreover have "fst p \<noteq> k" using False c by auto
    ultimately show ?thesis using cache_put_new_full[OF False _ c, of mx v]
      by (simp add: map_add_def AList.delete_conv')
  qed
qed

lemma cache_put_inv:
  assumes "distinct (map fst c)" "int (length c) \<le> mx" "0 \<le> mx"
  shows "distinct (map fst (cache_put mx k v c)) \<and> int (length (cache_put mx k v c)) \<le> mx"
proof (cases "k \<in> fst ` set c")
  case True
  then show ?thesis using assms by (simp add: cache_put_old AList.distinct_update length_update_old)
next
  case False
  show ?thesis
  proof (cases "int (length c) < mx")
    case True
    then show ?thesis using False assms by (simp add: cache_put_new_fits)
  next
    case full: False
    show ?thesis
    proof (cases c)
      case Nil
      then show ?thesis using full assms by (simp add: cache_put_def Let_def js_slice_def)
    next
      case (Cons p ps)
      have eq: "int (length c) = mx" using full assms Cons by simp
      have "fst p \<noteq> k" using False Cons by auto
      moreover have "fst p \<notin> fst ` set ps" using assms(1) Cons by auto
      ultimately have "AList.delete (fst p) (ps @ [(k, v)]) = ps @ [(k, v)]"
        by (intro AList.delete_id) auto
      then show ?thesis using False assms Cons eq cache_put_new_full[OF False eq Cons, of v]
        by auto
    qed
  qed
qed

lemma mkdir_fields [simp]:
  "files (mkdir d st) = files st" "entityCache (mkdir d st) = entityCache st"
  "maxCacheSize (mkdir d st) = maxCacheSize st"
  "text_index (mkdir d st) = text_index st" "metadata_index (mkdir d st) = metadata_index st"
  "agentId_index (mkdir d st) = agentId_index st"
  by (cases d; simp)+

lemma indexEntity_fields [simp]:
  "files (indexEntity e st) = files st" "entityCache (indexEntity e st) = entityCache st"
  "maxCacheSize (indexEntity e st) = maxCacheSize st"
  "agentDirs (indexEntity e st) = agentDirs st" "projectDirs (indexEntity e st) = projectDirs st"
  "templateDirs (indexEntity e st) = templateDirs st"
  by (simp_all add: indexEntity_def indexText_def indexMetadata_def indexAgentId_def Let_def
        split: option.splits)

lemma cacheEntity_fields [simp]:
  "files (cacheEntity e st) = files st" "maxCacheSize (cacheEntity e st) = maxCacheSize st"
  "agentDirs (cacheEntity e st) = agentDirs st" "projectDirs (cacheEntity e st) = projectDirs st"
  "templateDirs (cacheEntity e st) = templateDirs st"
  "text_index (cacheEntity e st) = text_index st" "metadata_index (cacheEntity e st) = metadata_index st"
  "agentId_index (cacheEntity e st) = agentId_index st"
  by (simp_all add: cacheEntity_def)

lemma cacheEntity_lookup:
  "cache_ok st \<Longrightarrow> map_of (entityCache (cacheEntity e st)) (ent_id e) = Some e"
  by (simp add: cacheEntity_def cache_ok_def cache_put_lookup)

lemma cache_ok_cacheEntity: "cache_ok st \<Longrightarrow> cache_ok (cacheEntity e st)"
  using cache_put_inv[of "entityCache st" "maxCacheSize st" "ent_id e" e]
  by (simp add: cacheEntity_def cache_ok_def)

lemma storeEntity_Inr:
  assumes "storeEntity st e ctx rnd t1 t2 = Inr (st', s)"
  shows "\<exists>st3. st' = cacheEntity s st3 \<and> entityCache st3 = entityCache st \<and>
           maxCacheSize st3 = maxCacheSize st \<and>
           files st3 = AList.update (snd (getEntityPath s (case ctx of None \<Rightarrow> ''shared'' | Some x \<Rightarrow> x))) s (files st)"
  using assms
  by (auto simp: storeEntity_def Let_def split: if_splits prod.splits)

lemma storeEntity_cached:
  assumes "cache_ok st" and "storeEntity st e ctx rnd t1 t2 = Inr (st', s)"
  shows "map_of (entityCache st') (ent_id s) = Some s"
proof -
  obtain st3 where st': "st' = cacheEntity s st3" and c: "entityCache st3 = entityCache st"
    and m: "maxCacheSize st3 = maxCacheSize st"
    using storeEntity_Inr[OF assms(2)] by blast
  have "cache_ok st3" using assms(1) c m by (simp add: cache_ok_def)
  then show ?thesis unfolding st' by (rule cacheEntity_lookup)
qed

text \<open>
  C1 (round trip).  In a state whose cache is well formed, whenever \<open>storeEntity(e, ctx)\<close>
  returns the stored entity \<open>s\<close>, the following \<open>getEntity(s.id, ctx)\<close> returns exactly
  \<open>s\<close> (every field, the \<open>updated\<close> stamp included), for every entity and every context:
  the entity was cached by the store and the cache is asked first.
\<close>

theorem store_then_get:
  assumes "cache_ok st" and "storeEntity st e ctx rnd t1 t2 = Inr (st', s)"
  shows "getEntity st' (ent_id s) ctx = Inr (st', s)"
  using storeEntity_cached[OF assms] by (simp add: getEntity_def)

text \<open>
  C5 (partition of a stored entity), as the code has it.  \<open>storeEntity\<close> writes exactly
  one file, named by the entity id, into the agent, project or template directory when the
  context names that kind and the entity carries the matching id, into \<open>shared\<close> when the
  context is \<open>shared\<close> (also by default), and in every other case into the \<open>temp\<close>
  directory.
\<close>

theorem storeEntity_partition:
  assumes "storeEntity st e ctx rnd t1 t2 = Inr (st', s)"
  shows "\<exists>d. map_of (files st') (d, ent_id s) = Some s \<and>
           (\<forall>p. p \<noteq> (d, ent_id s) \<longrightarrow> map_of (files st') p = map_of (files st) p) \<and>
           d = (if ctx = Some ''agent'' \<and> agentId s \<noteq> [] then Agents (agentId s)
                else if ctx = Some ''project'' \<and> projectId s \<noteq> [] then Projects (projectId s)
                else if ctx = Some ''template'' \<and> templateId s \<noteq> [] then Templates (templateId s)
                else if ctx = Some ''shared'' \<or> ctx = None then Shared
                else Temp)"
proof -
  obtain st3 where st': "st' = cacheEntity s st3" 
    and f: "files st3 = AList.update (snd (getEntityPath s (case ctx of None \<Rightarrow> ''shared'' | Some x \<Rightarrow> x))) s (files st)"
    using storeEntity_Inr[OF assms] by blast
  show ?thesis unfolding st'
    by (cases ctx) (auto simp: f getEntityPath_def Let_def AList.update_conv')
qed

lemma cache_ok_new: "0 \<le> mx \<Longrightarrow> cache_ok (new_storage_manager fs ads pds tds mx)"
  by (simp add: cache_ok_def new_storage_manager_def)

lemma storeEntity_typed:
  assumes "ent_type e \<noteq> []"
  shows "\<exists>st' s. storeEntity st e ctx rnd t1 t2 = Inr (st', s)"
  using assms by (simp add: storeEntity_def Let_def split: prod.splits)

theorem store_then_get_witness:
  "cache_ok empty_storage \<and>
   (\<exists>st' s. storeEntity empty_storage (mk_entity ''x'' ''note'') (Some ''agent'') ''r'' ''t1'' ''t2''
                = Inr (st', s) \<and>
            getEntity st' (ent_id s) (Some ''agent'') = Inr (st', s))"
proof -
  have ok: "cache_ok empty_storage" unfolding empty_storage_def by (rule cache_ok_new) simp
  have "ent_type (mk_entity ''x'' ''note'') \<noteq> []" by (simp add: mk_entity_def)
  then obtain st' s where
    eq: "storeEntity empty_storage (mk_entity ''x'' ''note'') (Some ''agent'') ''r'' ''t1'' ''t2''
           = Inr (st', s)"
    using storeEntity_typed by blast
  from store_then_get[OF ok eq] ok eq show ?thesis by blast
qed

text \<open>
  The claim that every other case lands in \<open>shared\<close> fails: an entity without
  \<open>agentId\<close> stored under the context \<open>agent\<close> is written to \<open>temp\<close>, and \<open>shared\<close>
  holds no file for it.
\<close>

theorem storeEntity_shared_counterexample:
  "\<exists>st' s. storeEntity empty_storage (mk_entity ''x'' ''note'') (Some ''agent'') ''r'' ''t1'' ''t2''
              = Inr (st', s) \<and>
     files st' = [((Temp, ''x''), s)] \<and> map_of (files st') (Shared, ''x'') = None"
  by (simp add: storeEntity_def Let_def mk_entity_def blank_entity_def empty_storage_def
        new_storage_manager_def getEntityPath_def)

theorem storeEntity_partition_witness:
  "\<exists>st' s. storeEntity empty_storage (mk_entity ''x'' ''note'') (Some ''agent'') ''r'' ''t1'' ''t2''
              = Inr (st', s) \<and> map_of (files st') (Temp, ent_id s) = Some s"
proof -
  have "ent_type (mk_entity ''x'' ''note'') \<noteq> []" by (simp add: mk_entity_def)
  then obtain st' s where
    eq: "storeEntity empty_storage (mk_entity ''x'' ''note'') (Some ''agent'') ''r'' ''t1'' ''t2''
           = Inr (st', s)"
    using storeEntity_typed by blast
  then have "agentId s = []"
    by (auto simp: storeEntity_def Let_def mk_entity_def blank_entity_def split: prod.splits)
  with storeEntity_partition[OF eq] eq show ?thesis by auto
qed

section \<open>Deletion\<close>

lemma removeEntityFromIndices_fields [simp]:
  "files (removeEntityFromIndices e st) = files st"
  "entityCache (removeEntityFromIndices e st) = entityCache st"
  "maxCacheSize (removeEntityFromIndices e st) = maxCacheSize st"
  by (simp_all add: removeEntityFromIndices_def)

lemma deleteEntity_never_false: "snd (deleteEntity st i ctx) \<noteq> Inr False"
  by (simp add: deleteEntity_def Let_def split: sum.splits prod.splits option.splits)

lemma deleteEntity_unresolved:
  "getEntity st i ctx = Inl err \<Longrightarrow> deleteEntity st i ctx = (st, Inl err)"
  by (simp add: deleteEntity_def)

lemma storeEntity_file:
  assumes "storeEntity st e ctx rnd t1 t2 = Inr (st', s)"
  shows "map_of (files st') (snd (getEntityPath s (case ctx of None \<Rightarrow> ''shared'' | Some x \<Rightarrow> x))) = Some s"
  using storeEntity_Inr[OF assms] by (auto simp: AList.update_conv')

lemma deleteEntity_after_store:
  assumes "cache_ok st" "storeEntity st e (Some c) rnd t1 t2 = Inr (st', s)" "c \<noteq> []"
  shows "\<exists>st''. deleteEntity st' (ent_id s) (Some c) = (st'', Inr True) \<and>
           map_of (entityCache st'') (ent_id s) = None \<and>
           map_of (files st'') (snd (getEntityPath s c)) = None"
proof -
  have g: "getEntity st' (ent_id s) (Some c) = Inr (st', s)"
    using storeEntity_cached[OF assms(1,2)] by (simp add: getEntity_def)
  have f: "map_of (files st') (snd (getEntityPath s c)) = Some s"
    using storeEntity_file[OF assms(2)] by simp
  obtain d p where gp: "getEntityPath s c = (d, p)" by (cases "getEntityPath s c")
  show ?thesis using f assms(3)
    by (simp add: deleteEntity_def g Let_def truthy_def gp AList.delete_conv')
qed

lemma deleteRelationship_cases:
  "snd (deleteRelationship kg j) =
     (if map_of (relFiles kg) j \<noteq> None then Inr True
      else if map_of (relationshipCache kg) j \<noteq> None then Inr False
      else Inl (Error (''Relationship not found: '' @ j)))"
  by (auto simp: deleteRelationship_def getRelationship_def readRelFile_def unlinkRelFile_def
        removeRelationshipFromIndices_def cacheRelationship_def Let_def
        split: option.splits sum.splits prod.splits)

text \<open>The second of two \<open>deleteRelationship\<close> calls always raises: the \<open>catch\<close> of
  \<open>deleteRelationship\<close> tests \<open>error.code === 'ENOENT'\<close>, but \<open>getRelationship\<close> has
  already replaced the \<open>ENOENT\<close> error by a plain \<open>Error\<close> without a code.\<close>

lemma deleteRelationship_twice:
  assumes "deleteRelationship kg j = (kg', Inr True)"
  shows "snd (deleteRelationship kg' j) = Inl (Error (''Relationship not found: '' @ j))"
proof -
  have "map_of (relFiles kg') j = None \<and> map_of (relationshipCache kg') j = None"
    using assms
    by (auto simp: deleteRelationship_def getRelationship_def readRelFile_def unlinkRelFile_def
          removeRelationshipFromIndices_def cacheRelationship_def Let_def AList.delete_conv'
          split: option.splits sum.splits prod.splits if_splits)
  then show ?thesis by (simp add: deleteRelationship_cases)
qed

text \<open>
  C4 (deletion), as the code has it.  \<open>deleteEntity\<close> has no path that returns
  \<open>false\<close>: it returns \<open>true\<close> or raises.  On an id that \<open>getEntity\<close> cannot resolve it
  raises that error and changes nothing; after \<open>storeEntity(e, c)\<close> under an explicit
  context, \<open>deleteEntity(id, c)\<close> returns \<open>true\<close> and leaves neither a cache entry nor
  the file.  \<open>deleteRelationship\<close> returns \<open>true\<close> when the file exists, and \<open>false\<close>,
  without raising, when the relationship is still cached while its file is absent.
\<close>

theorem delete_outcomes:
  "snd (deleteEntity st i ctx) \<noteq> Inr False \<and>
   (\<forall>err. getEntity st i ctx = Inl err \<longrightarrow> deleteEntity st i ctx = (st, Inl err)) \<and>
   (cache_ok st \<and> c \<noteq> [] \<and> storeEntity st e (Some c) rnd t1 t2 = Inr (st', s) \<longrightarrow>
      (\<exists>st''. deleteEntity st' (ent_id s) (Some c) = (st'', Inr True) \<and>
             map_of (entityCache st'') (ent_id s) = None \<and>
             map_of (files st'') (snd (getEntityPath s c)) = None)) \<and>
   (map_of (relFiles kg) j \<noteq> None \<longrightarrow> snd (deleteRelationship kg j) = Inr True) \<and>
   (map_of (relFiles kg) j = None \<and> map_of (relationshipCache kg) j \<noteq> None \<longrightarrow>
      snd (deleteRelationship kg j) = Inr False)"
proof (intro conjI allI impI)
  show "snd (deleteEntity st i ctx) \<noteq> Inr False" by (rule deleteEntity_never_false)
next
  fix err assume "getEntity st i ctx = Inl err"
  then show "deleteEntity st i ctx = (st, Inl err)" by (rule deleteEntity_unresolved)
next
  assume "cache_ok st \<and> c \<noteq> [] \<and> storeEntity st e (Some c) rnd t1 t2 = Inr (st', s)"
  then show "\<exists>st''. deleteEntity st' (ent_id s) (Some c) = (st'', Inr True) \<and>
             map_of (entityCache st'') (ent_id s) = None \<and>
             map_of (files st'') (snd (getEntityPath s c)) = None"
    using deleteEntity_after_store by blast
next
  assume "map_of (relFiles kg) j \<noteq> None"
  then show "snd (deleteRelationship kg j) = Inr True" by (simp add: deleteRelationship_cases)
next
  assume "map_of (relFiles kg) j = None \<and> map_of (relationshipCache kg) j \<noteq> None"
  then show "snd (deleteRelationship kg j) = Inr False" by (simp add: deleteRelationship_cases)
qed

theorem delete_outcomes_witness:
  "deleteEntity empty_storage ''x'' None = (empty_storage, Inl (Error ''Entity not found: x'')) \<and>
   (\<exists>st' s st''.
       storeEntity empty_storage (mk_entity ''x'' ''note'') (Some ''agent'') ''r'' ''t1'' ''t2''
         = Inr (st', s) \<and>
       deleteEntity st' (ent_id s) (Some ''agent'') = (st'', Inr True)) \<and>
   snd (deleteRelationship cached_only_graph ''r1'') = Inr False"
proof -
  have g: "getEntity empty_storage ''x'' None = Inl (Error ''Entity not found: x'')"
    by (simp add: getEntity_def empty_storage_def new_storage_manager_def truthy_def
          findEntityInContext_def readEntityFile_def)
  have ok: "cache_ok empty_storage" unfolding empty_storage_def by (rule cache_ok_new) simp
  have "ent_type (mk_entity ''x'' ''note'') \<noteq> []" by (simp add: mk_entity_def)
  then obtain st' s where
    eq: "storeEntity empty_storage (mk_entity ''x'' ''note'') (Some ''agent'') ''r'' ''t1'' ''t2''
           = Inr (st', s)"
    using storeEntity_typed by blast
  have r: "map_of (relFiles cached_only_graph) ''r1'' = None \<and>
           map_of (relationshipCache cached_only_graph) ''r1'' \<noteq> None"
    by (simp add: cached_only_graph_def empty_graph_def new_knowledge_graph_def)
  from delete_outcomes[of empty_storage "''x''" None "''agent''" "mk_entity ''x'' ''note''"
         "''r''" "''t1''" "''t2''" st' s cached_only_graph "''r1''"]
    g ok eq r
  show ?thesis by auto
qed

text \<open>
  Deleting twice does not give \<open>true\<close> then \<open>false\<close>: for an entity and for a
  relationship alike, the second call raises a not-found error.
\<close>

theorem delete_twice_counterexample:
  "(\<exists>st1 s st2 st3.
      storeEntity empty_storage (mk_entity ''x'' ''note'') (Some ''shared'') ''r'' ''t1'' ''t2''
        = Inr (st1, s) \<and>
      deleteEntity st1 ''x'' (Some ''shared'') = (st2, Inr True) \<and>
      deleteEntity st2 ''x'' (Some ''shared'') = (st3, Inl (Error ''Entity not found: x''))) \<and>
   (\<exists>kg1 r kg2 kg3.
      createRelationship empty_graph (mk_rel ''r1'' ''A'' ''B'' ''next'') ''r'' ''t1'' ''t2''
        = Inr (kg1, r) \<and>
      deleteRelationship kg1 ''r1'' = (kg2, Inr True) \<and>
      deleteRelationship kg2 ''r1'' = (kg3, Inl (Error ''Relationship not found: r1'')))"
proof (rule conjI)
  show "\<exists>st1 s st2 st3.
      storeEntity empty_storage (mk_entity ''x'' ''note'') (Some ''shared'') ''r'' ''t1'' ''t2''
        = Inr (st1, s) \<and>
      deleteEntity st1 ''x'' (Some ''shared'') = (st2, Inr True) \<and>
      deleteEntity st2 ''x'' (Some ''shared'') = (st3, Inl (Error ''Entity not found: x''))"
    by (simp add: storeEntity_def deleteEntity_def getEntity_def findEntityInContext_def
          readEntityFile_def empty_storage_def new_storage_manager_def mk_entity_def
          blank_entity_def getEntityPath_def indexEntity_def cacheEntity_def cache_put_def
          removeEntityFromIndices_def truthy_def Let_def)
next
  show "\<exists>kg1 r kg2 kg3.
      createRelationship empty_graph (mk_rel ''r1'' ''A'' ''B'' ''next'') ''r'' ''t1'' ''t2''
        = Inr (kg1, r) \<and>
      deleteRelationship kg1 ''r1'' = (kg2, Inr True) \<and>
      deleteRelationship kg2 ''r1'' = (kg3, Inl (Error ''Relationship not found: r1''))"
    by (simp add: createRelationship_def deleteRelationship_def getRelationship_def
          readRelFile_def unlinkRelFile_def empty_graph_def new_knowledge_graph_def mk_rel_def
          indexRelationship_def cacheRelationship_def cache_put_def index_add_def set_add_def
          removeRelationshipFromIndices_def index_remove_def set_delete_def Let_def)
qed

lemma finite_kg_nodes: "finite (kg_nodes kg)"
  by (simp add: kg_nodes_def kg_rels_def)

lemma set_update_subset: "set (AList.update k v c) \<subseteq> insert (k, v) (set c)"
  by (induct c) auto

lemma set_fold_delete_subset: "set (fold AList.delete ks c) \<subseteq> set c"
proof (induct ks arbitrary: c)
  case Nil
  then show ?case by simp
next
  case (Cons k ks)
  have "set (fold AList.delete ks (AList.delete k c)) \<subseteq> set (AList.delete k c)"
    by (rule Cons)
  also have "\<dots> \<subseteq> set c" by (auto simp: AList.delete_eq)
  finally show ?case by simp
qed

lemma set_cache_put: "set (cache_put mx k v c) \<subseteq> insert (k, v) (set c)"
proof -
  have "set (cache_put mx k v c) \<subseteq> set (AList.update k v c)"
    by (simp add: cache_put_def Let_def set_fold_delete_subset)
  then show ?thesis using set_update_subset[of k v c] by (rule order_trans)
qed

lemma set_js_slice: "set (js_slice xs a b) \<subseteq> set xs"
  by (metis js_slice_def order_trans set_drop_subset set_take_subset)

lemma getRelationship_Inr:
  assumes "getRelationship kg i = Inr (kg', r)"
  shows "r \<in> kg_rels kg \<and> kg_rels kg' \<subseteq> kg_rels kg \<and>
         storageManager kg' = storageManager kg \<and> relFiles kg' = relFiles kg \<and>
         source_index kg' = source_index kg \<and> target_index kg' = target_index kg"
proof (cases "map_of (relationshipCache kg) i")
  case (Some r')
  then show ?thesis using assms map_of_SomeD[OF Some]
    by (force simp: getRelationship_def kg_rels_def)
next
  case None
  then obtain r' where f: "map_of (relFiles kg) i = Some r'"
    using assms by (auto simp: getRelationship_def readRelFile_def split: option.splits if_splits)
  then have eq: "r = r'" "kg' = cacheRelationship r' kg"
    using assms None by (auto simp: getRelationship_def readRelFile_def)
  have "r' \<in> snd ` set (relFiles kg)" using map_of_SomeD[OF f] by force
  moreover have "snd ` set (relationshipCache kg') \<subseteq> insert r' (snd ` set (relationshipCache kg))"
    using set_cache_put[of "rel_maxCacheSize kg" "rel_id r'" r' "relationshipCache kg"]
    by (auto simp: eq cacheRelationship_def)
  ultimately show ?thesis by (auto simp: eq kg_rels_def cacheRelationship_def)
qed

lemma collectRels_props:
  assumes "collectRels ty ids (kg, acc) = (kg', acc')"
  shows "set acc' \<subseteq> set acc \<union> kg_rels kg \<and> kg_rels kg' \<subseteq> kg_rels kg \<and>
         storageManager kg' = storageManager kg \<and> relFiles kg' = relFiles kg \<and>
         source_index kg' = source_index kg \<and> target_index kg' = target_index kg"
  using assms
proof (induction ids arbitrary: kg acc)
  case Nil
  then show ?case by simp
next
  case (Cons i ids)
  show ?case
  proof (cases "getRelationship kg i")
    case (Inl err)
    then show ?thesis using Cons by simp
  next
    case (Inr p)
    obtain kg1 r where p: "p = (kg1, r)" by (cases p)
    note g = getRelationship_Inr[OF Inr[unfolded p]]
    let ?acc1 = "if \<not> truthy ty \<or> rel_type r = the ty then acc @ [r] else acc"
    have "collectRels ty ids (kg1, ?acc1) = (kg', acc')"
      using Cons.prems Inr p by simp
    from Cons.IH[OF this] g show ?thesis by (auto split: if_splits)
  qed
qed

lemma collectRels_fst_snd:
  "set (snd (collectRels ty ids p)) \<subseteq> set (snd p) \<union> kg_rels (fst p) \<and>
   kg_rels (fst (collectRels ty ids p)) \<subseteq> kg_rels (fst p) \<and>
   storageManager (fst (collectRels ty ids p)) = storageManager (fst p) \<and>
   relFiles (fst (collectRels ty ids p)) = relFiles (fst p) \<and>
   source_index (fst (collectRels ty ids p)) = source_index (fst p) \<and>
   target_index (fst (collectRels ty ids p)) = target_index (fst p)"
  using collectRels_props[of ty ids "fst p" "snd p" "fst (collectRels ty ids p)"
          "snd (collectRels ty ids p)"]
  by simp

lemma gatherRelationships_props:
  "set (snd (gatherRelationships kg e ty dir)) \<subseteq> kg_rels kg \<and>
   kg_rels (fst (gatherRelationships kg e ty dir)) \<subseteq> kg_rels kg \<and>
   storageManager (fst (gatherRelationships kg e ty dir)) = storageManager kg"
proof -
  define s1 where "s1 =
        (if dir = ''outgoing'' \<or> dir = ''both'' then
           (case map_of (source_index kg) e of
              None \<Rightarrow> (kg, [])
            | Some ids \<Rightarrow> collectRels ty ids (kg, []))
         else (kg, []))"
  define s2 where "s2 =
        (if dir = ''incoming'' \<or> dir = ''both'' then
           (case map_of (target_index (fst s1)) e of
              None \<Rightarrow> s1
            | Some ids \<Rightarrow> collectRels ty ids s1)
         else s1)"
  have 1: "set (snd s1) \<subseteq> kg_rels kg \<and> kg_rels (fst s1) \<subseteq> kg_rels kg \<and>
           storageManager (fst s1) = storageManager kg"
  proof (cases "s1 = (kg, [])")
    case True
    then show ?thesis by simp
  next
    case False
    then obtain ids where "s1 = collectRels ty ids (kg, [])"
      by (auto simp: s1_def split: option.splits if_splits)
    then show ?thesis using collectRels_fst_snd[of ty ids "(kg, [])"] by simp
  qed
  have 2: "set (snd s2) \<subseteq> kg_rels kg \<and> kg_rels (fst s2) \<subseteq> kg_rels kg \<and>
           storageManager (fst s2) = storageManager kg"
  proof (cases "s2 = s1")
    case True
    then show ?thesis using 1 by simp
  next
    case False
    then obtain ids where "s2 = collectRels ty ids s1"
      by (auto simp: s2_def split: option.splits if_splits)
    then show ?thesis using 1 collectRels_fst_snd[of ty ids s1] by auto
  qed
  have "gatherRelationships kg e ty dir = s2"
    unfolding gatherRelationships_def s2_def s1_def Let_def by (rule refl)
  then show ?thesis using 2 by simp
qed

lemma listRelationships_props:
  assumes "listRelationships kg e ty dir l off = (kg', lr)"
  shows "set (lr_relationships lr) \<subseteq> kg_rels kg \<and> kg_rels kg' \<subseteq> kg_rels kg \<and>
         storageManager kg' = storageManager kg"
proof -
  have "kg' = fst (gatherRelationships kg e ty dir)"
       "lr_relationships lr = js_slice (snd (gatherRelationships kg e ty dir)) off (off + l)"
    using assms by (auto simp: listRelationships_def Let_def)
  then show ?thesis
    using gatherRelationships_props[of kg e ty dir]
      set_js_slice[of "snd (gatherRelationships kg e ty dir)" off "off + l"]
    by auto
qed

lemma addRelationship_fields [simp]:
  "entities (addRelationship r res) = entities res" "paths (addRelationship r res) = paths res"
  by (simp_all add: addRelationship_def)

lemma addConnected_props:
  "relationshipCache (bfs_kg (addConnected e d r sm' ce s)) = relationshipCache (bfs_kg s) \<and>
   relFiles (bfs_kg (addConnected e d r sm' ce s)) = relFiles (bfs_kg s) \<and>
   visited (addConnected e d r sm' ce s) = visited s \<and>
   (\<exists>new. queue (addConnected e d r sm' ce s) = queue s @ new)"
  by (simp add: addConnected_def Let_def split: option.splits)

lemma visitRelationship_props:
  "relationshipCache (bfs_kg (visitRelationship e d tys r s)) = relationshipCache (bfs_kg s) \<and>
   relFiles (bfs_kg (visitRelationship e d tys r s)) = relFiles (bfs_kg s) \<and>
   visited s \<subseteq> visited (visitRelationship e d tys r s) \<and>
   visited (visitRelationship e d tys r s) \<subseteq> visited s \<union> {sourceId r, targetId r} \<and>
   (\<exists>new. queue (visitRelationship e d tys r s) = queue s @ new \<and>
          (visited (visitRelationship e d tys r s) = visited s \<longrightarrow> new = []))"
proof (cases "case tys of None \<Rightarrow> False | Some ts \<Rightarrow> rel_type r \<notin> set ts")
  case True
  then show ?thesis by (auto simp: visitRelationship_def)
next
  case typed: False
  let ?c = "connectedEntityId e r"
  have c: "?c \<in> {sourceId r, targetId r}" by (simp add: connectedEntityId_def)
  show ?thesis
  proof (cases "?c \<in> visited s")
    case True
    then show ?thesis using typed by (auto simp: visitRelationship_def Let_def)
  next
    case fresh: False
    show ?thesis
    proof (cases "getEntity (storageManager (bfs_kg s)) ?c None")
      case (Inl err)
      then show ?thesis using typed fresh c
        by (auto simp: visitRelationship_def Let_def)
    next
      case (Inr p)
      obtain sm' ce where p: "p = (sm', ce)" by (cases p)
      let ?s2 = "s\<lparr>result := addRelationship r (result s), visited := insert ?c (visited s)\<rparr>"
      have eq: "visitRelationship e d tys r s = addConnected e d r sm' ce ?s2"
        using typed fresh Inr p by (simp add: visitRelationship_def Let_def)
      show ?thesis using addConnected_props[of e d r sm' ce ?s2] fresh c
        unfolding eq by auto
    qed
  qed
qed

lemma fold_visitRelationship_props:
  "relationshipCache (bfs_kg (fold (visitRelationship e d tys) rs s)) = relationshipCache (bfs_kg s) \<and>
   relFiles (bfs_kg (fold (visitRelationship e d tys) rs s)) = relFiles (bfs_kg s) \<and>
   visited s \<subseteq> visited (fold (visitRelationship e d tys) rs s) \<and>
   visited (fold (visitRelationship e d tys) rs s)
     \<subseteq> visited s \<union> sourceId ` set rs \<union> targetId ` set rs \<and>
   (\<exists>new. queue (fold (visitRelationship e d tys) rs s) = queue s @ new \<and>
          (visited (fold (visitRelationship e d tys) rs s) = visited s \<longrightarrow> new = []))"
proof (induction rs arbitrary: s)
  case Nil
  then show ?case by simp
next
  case (Cons r rs)
  let ?s1 = "visitRelationship e d tys r s"
  let ?s2 = "fold (visitRelationship e d tys) rs ?s1"
  note 1 = visitRelationship_props[of e d tys r s]
  note 2 = Cons.IH[of ?s1]
  obtain new1 where n1: "queue ?s1 = queue s @ new1" "visited ?s1 = visited s \<longrightarrow> new1 = []"
    using 1 by blast
  obtain new2 where n2: "queue ?s2 = queue ?s1 @ new2" "visited ?s2 = visited ?s1 \<longrightarrow> new2 = []"
    using 2 by blast
  have q: "queue ?s2 = queue s @ (new1 @ new2)" using n1 n2 by simp
  have v: "visited ?s2 = visited s \<longrightarrow> new1 @ new2 = []"
  proof
    assume eq: "visited ?s2 = visited s"
    have "visited ?s1 = visited s" using 1 2 eq by blast
    then show "new1 @ new2 = []" using n1 n2 eq by simp
  qed
  have "visited ?s2 \<subseteq> visited s \<union> sourceId ` set (r # rs) \<union> targetId ` set (r # rs)"
    using 1 2 by auto
  moreover have "visited s \<subseteq> visited ?s2" using 1 2 by blast
  ultimately show ?case using 1 2 q v by simp
qed

subsection \<open>The loop terminates\<close>

lemma traverseBFS_loop_Nil:
  "queue s = [] \<Longrightarrow> traverseBFS_loop tys md dir s = Some s"
  by (subst traverseBFS_loop.simps) simp

lemma traverseBFS_loop_Cons:
  "queue s = item # rest \<Longrightarrow>
   traverseBFS_loop tys md dir s =
     (if snd item \<ge> md then traverseBFS_loop tys md dir (s\<lparr>queue := rest\<rparr>)
      else traverseBFS_loop tys md dir
             (fold (visitRelationship (fst item) (snd item) tys)
                (lr_relationships (snd (listRelationships (bfs_kg s) (fst item) None dir 1000 0)))
                (s\<lparr> queue := rest,
                    bfs_kg := fst (listRelationships (bfs_kg s) (fst item) None dir 1000 0) \<rparr>)))"
  by (subst traverseBFS_loop.simps) simp

text \<open>One expansion of the loop, as a function of the state and the dequeued item.\<close>

lemma bfs_drop_decreases:
  "queue s = item # rest \<Longrightarrow>
   (s\<lparr>queue := rest\<rparr>, s) \<in> inv_image (less_than <*lex*> less_than) bfs_measure"
  by (simp add: bfs_measure_def)

lemma bfs_expand_decreases:
  assumes "queue s = item # rest"
  shows "(fold (visitRelationship (fst item) (snd item) tys)
            (lr_relationships (snd (listRelationships (bfs_kg s) (fst item) None dir 1000 0)))
            (s\<lparr> queue := rest,
                bfs_kg := fst (listRelationships (bfs_kg s) (fst item) None dir 1000 0) \<rparr>), s)
         \<in> inv_image (less_than <*lex*> less_than) bfs_measure"
proof -
  define L where "L = listRelationships (bfs_kg s) (fst item) None dir 1000 0"
  define s0 where "s0 = s\<lparr>queue := rest, bfs_kg := fst L\<rparr>"
  define s1 where "s1 = fold (visitRelationship (fst item) (snd item) tys)
                          (lr_relationships (snd L)) s0"
  have lp: "set (lr_relationships (snd L)) \<subseteq> kg_rels (bfs_kg s)"
           "kg_rels (fst L) \<subseteq> kg_rels (bfs_kg s)"
    using listRelationships_props[of "bfs_kg s" "fst item" None dir 1000 0 "fst L" "snd L"]
    by (simp_all add: L_def)
  note fp = fold_visitRelationship_props[of "fst item" "snd item" tys "lr_relationships (snd L)" s0,
              folded s1_def]
  have rels: "kg_rels (bfs_kg s1) = kg_rels (fst L)"
    using fp by (simp add: kg_rels_def s0_def)
  have nodes: "kg_nodes (bfs_kg s1) \<subseteq> kg_nodes (bfs_kg s)"
    using rels lp by (auto simp: kg_nodes_def)
  have vis: "visited s \<subseteq> visited s1" using fp by (simp add: s0_def)
  have "visited s1 \<subseteq> visited s \<union> sourceId ` set (lr_relationships (snd L))
                      \<union> targetId ` set (lr_relationships (snd L))"
    using fp by (simp add: s0_def)
  then have vis2: "visited s1 \<subseteq> visited s \<union> kg_nodes (bfs_kg s)"
    using lp(1) unfolding kg_nodes_def by blast
  obtain new where q: "queue s1 = rest @ new" "visited s1 = visited s \<longrightarrow> new = []"
    using fp by (auto simp: s0_def)
  have le: "card (kg_nodes (bfs_kg s1) - visited s1) \<le> card (kg_nodes (bfs_kg s) - visited s)"
    using nodes vis by (intro card_mono) (auto simp: finite_kg_nodes)
  have "(s1, s) \<in> inv_image (less_than <*lex*> less_than) bfs_measure"
  proof (cases "visited s1 = visited s")
    case True
    then have "length (queue s1) < length (queue s)" using q assms by simp
    then show ?thesis using le by (auto simp: bfs_measure_def)
  next
    case neq: False
    then obtain x where x: "x \<in> visited s1" "x \<notin> visited s" using vis by blast
    then have xn: "x \<in> kg_nodes (bfs_kg s)" using vis2 by blast
    have "kg_nodes (bfs_kg s1) - visited s1 \<subset> kg_nodes (bfs_kg s) - visited s"
      using nodes vis x xn by blast
    then have "card (kg_nodes (bfs_kg s1) - visited s1) < card (kg_nodes (bfs_kg s) - visited s)"
      by (intro psubset_card_mono) (auto simp: finite_kg_nodes)
    then show ?thesis by (simp add: bfs_measure_def)
  qed
  then show ?thesis by (simp add: s1_def s0_def L_def)
qed

lemma traverseBFS_loop_terminates: "\<exists>s'. traverseBFS_loop tys md dir s = Some s'"
proof (induction s rule: wf_induct_rule[OF wf_inv_image[OF wf_lex_prod[OF wf_less_than wf_less_than]],
         where f1 = bfs_measure])
  case (1 s)
  show ?case
  proof (cases "queue s")
    case Nil
    then show ?thesis by (simp add: traverseBFS_loop_Nil)
  next
    case (Cons item rest)
    show ?thesis
    proof (cases "snd item \<ge> md")
      case True
      from 1[OF bfs_drop_decreases[OF Cons]] show ?thesis
        using Cons True by (simp add: traverseBFS_loop_Cons)
    next
      case False
      from 1[OF bfs_expand_decreases[OF Cons, of tys dir]] show ?thesis
        using Cons False by (simp add: traverseBFS_loop_Cons)
    qed
  qed
qed

text \<open>A property that dropping an item and expanding an item both preserve holds when the
  loop ends, and the queue is then empty.\<close>

lemma traverseBFS_loop_invariant:
  assumes run: "traverseBFS_loop tys md dir s = Some s'" and init: "I s"
    and drop: "\<And>s item rest. I s \<Longrightarrow> queue s = item # rest \<Longrightarrow> snd item \<ge> md \<Longrightarrow>
                 I (s\<lparr>queue := rest\<rparr>)"
    and expand: "\<And>s item rest. I s \<Longrightarrow> queue s = item # rest \<Longrightarrow> \<not> snd item \<ge> md \<Longrightarrow>
                 I (fold (visitRelationship (fst item) (snd item) tys)
                      (lr_relationships (snd (listRelationships (bfs_kg s) (fst item) None dir 1000 0)))
                      (s\<lparr> queue := rest,
                          bfs_kg := fst (listRelationships (bfs_kg s) (fst item) None dir 1000 0) \<rparr>))"
  shows "I s' \<and> queue s' = []"
  using run init
proof (induction s rule: wf_induct_rule[OF wf_inv_image[OF wf_lex_prod[OF wf_less_than wf_less_than]],
         where f1 = bfs_measure])
  case (1 s)
  show ?case
  proof (cases "queue s")
    case Nil
    then show ?thesis using 1(2,3) by (simp add: traverseBFS_loop_Nil)
  next
    case (Cons item rest)
    show ?thesis
    proof (cases "snd item \<ge> md")
      case True
      have "traverseBFS_loop tys md dir (s\<lparr>queue := rest\<rparr>) = Some s'"
        using 1(2) Cons True by (simp add: traverseBFS_loop_Cons)
      from 1(1)[OF bfs_drop_decreases[OF Cons] this drop[OF 1(3) Cons True]]
      show ?thesis .
    next
      case False
      let ?s1 = "fold (visitRelationship (fst item) (snd item) tys)
                   (lr_relationships (snd (listRelationships (bfs_kg s) (fst item) None dir 1000 0)))
                   (s\<lparr> queue := rest,
                       bfs_kg := fst (listRelationships (bfs_kg s) (fst item) None dir 1000 0) \<rparr>)"
      have "traverseBFS_loop tys md dir ?s1 = Some s'"
        using 1(2) Cons False by (simp add: traverseBFS_loop_Cons)
      from 1(1)[OF bfs_expand_decreases[OF Cons] this expand[OF 1(3) Cons False]]
      show ?thesis .
    qed
  qed
qed

lemma traverseGraph_terminates: "traverseGraph kg start tys md dir \<noteq> None"
  using traverseBFS_loop_terminates
  by (auto simp: traverseGraph_def traverseBFS_def split: sum.splits)

text \<open>The stored form of the entity \<open>i\<close> of an example graph.\<close>

lemma chain_depth1:
  "case traverseGraph chain_graph ''A'' None 1 ''both'' of
     Some (Inr (kg', res)) \<Rightarrow> entities res = [node ''A'', node ''B'']
   | _ \<Rightarrow> False"
  by code_simp

lemma chain_depth3:
  "case traverseGraph chain_graph ''A'' None 3 ''both'' of
     Some (Inr (kg', res)) \<Rightarrow> entities res = [node ''A'', node ''B'', node ''C'', node ''D'']
   | _ \<Rightarrow> False"
  by code_simp

lemma chain_start: "getEntity (storageManager chain_graph) ''A'' None
                      = Inr (storageManager chain_graph, node ''A'')"
  by code_simp

lemma chain_rels_A:
  "lr_relationships (snd (listRelationships chain_graph ''A'' None ''both'' 1000 0))
     = [(mk_rel ''r1'' ''A'' ''B'' ''next'')\<lparr>rel_created := ''t1'', rel_updated := ''t2''\<rparr>]"
  by code_simp

lemma chain_other:
  "case traverseGraph chain_graph ''A'' (Some [''other'']) maxDepth ''both'' of
     Some (Inr (kg', res)) \<Rightarrow> entities res = [node ''A'']
   | _ \<Rightarrow> False"
proof (cases "0 \<ge> maxDepth")
  case True
  then show ?thesis
    by (simp add: traverseGraph_def chain_start traverseBFS_def traverseBFS_loop_Cons
          traverseBFS_loop_Nil)
next
  case False
  then show ?thesis
    by (simp add: traverseGraph_def chain_start traverseBFS_def traverseBFS_loop_Cons
          traverseBFS_loop_Nil chain_rels_A visitRelationship_def mk_rel_def)
qed

text \<open>
  C2 (traversal of the chain A-B-C-D of \<open>next\<close> relationships, and termination).  From
  \<open>A\<close> with \<open>maxDepth = 1\<close> the traversal returns exactly the entities \<open>A, B\<close>, with
  \<open>maxDepth = 3\<close> exactly \<open>A, B, C, D\<close>, and with \<open>relationshipTypes = ["other"]\<close> only
  \<open>A\<close> whatever the depth; and on every state of the store and every argument the
  traversal ends (with a result or with the error of an unresolved start entity).
\<close>

theorem traverse_chain:
  "(case traverseGraph chain_graph ''A'' None 1 ''both'' of
      Some (Inr (kg', res)) \<Rightarrow> entities res = [node ''A'', node ''B'']
    | _ \<Rightarrow> False) \<and>
   (case traverseGraph chain_graph ''A'' None 3 ''both'' of
      Some (Inr (kg', res)) \<Rightarrow> entities res = [node ''A'', node ''B'', node ''C'', node ''D'']
    | _ \<Rightarrow> False) \<and>
   (\<forall>maxDepth. case traverseGraph chain_graph ''A'' (Some [''other'']) maxDepth ''both'' of
      Some (Inr (kg', res)) \<Rightarrow> entities res = [node ''A'']
    | _ \<Rightarrow> False) \<and>
   (\<forall>kg start tys maxDepth dir. \<exists>outcome. traverseGraph kg start tys maxDepth dir = Some outcome)"
  using chain_depth1 chain_depth3 chain_other traverseGraph_terminates by blast

section \<open>Listing relationships\<close>

lemma map_of_fold_delete:
  "map_of (fold AList.delete ks c) k = None \<or> map_of (fold AList.delete ks c) k = map_of c k"
proof (induct ks arbitrary: c)
  case Nil
  then show ?case by simp
next
  case (Cons a ks)
  from Cons[of "AList.delete a c"] show ?case
    by (cases "a = k") (auto simp: AList.delete_conv')
qed

lemma map_of_cache_put_same:
  "map_of (cache_put mx k v c) k = None \<or> map_of (cache_put mx k v c) k = Some v"
  using map_of_fold_delete[of _ "AList.update k v c" k]
  by (auto simp: cache_put_def Let_def AList.update_conv')

lemma map_of_cache_put_other:
  "k' \<noteq> k \<Longrightarrow>
   map_of (cache_put mx k v c) k' = None \<or> map_of (cache_put mx k v c) k' = map_of c k'"
  using map_of_fold_delete[of _ "AList.update k v c" k']
  by (auto simp: cache_put_def Let_def AList.update_conv')

lemma distinct_set_add: "distinct xs \<Longrightarrow> distinct (set_add x xs)"
  by (simp add: set_add_def)

lemma index_add_distinct:
  assumes "\<forall>(k, ids) \<in> set idx. distinct ids"
  shows "\<forall>(k, ids) \<in> set (index_add k' i idx). distinct ids"
proof -
  have "distinct (set_add i (case map_of idx k' of None \<Rightarrow> [] | Some s \<Rightarrow> s))"
    using assms by (auto intro!: distinct_set_add split: option.splits dest: map_of_SomeD)
  then show ?thesis
    using assms set_update_subset[of k' _ idx] unfolding index_add_def by blast
qed

lemma index_add_member:
  "\<exists>ids. map_of (index_add k i idx) k = Some ids \<and> i \<in> set ids"
  by (simp add: index_add_def AList.update_conv' set_add_def)

lemma createRelationship_Inr:
  assumes "createRelationship kg r rnd t1 t2 = Inr (kg', r')"
  shows "sourceId r' = sourceId r \<and> targetId r' = targetId r \<and> rel_type r' = rel_type r \<and>
         relFiles kg' = AList.update (rel_id r') r' (relFiles kg) \<and>
         source_index kg' = index_add (sourceId r') (rel_id r') (source_index kg) \<and>
         target_index kg' = index_add (targetId r') (rel_id r') (target_index kg) \<and>
         relationshipCache kg' =
           cache_put (rel_maxCacheSize kg) (rel_id r') r' (relationshipCache kg) \<and>
         storageManager kg' = storageManager kg \<and> rel_maxCacheSize kg' = rel_maxCacheSize kg"
  using assms
  by (auto simp: createRelationship_def Let_def indexRelationship_def cacheRelationship_def
        split: if_splits)

lemma kg_wf_createRelationship:
  assumes "kg_wf kg" "createRelationship kg r rnd t1 t2 = Inr (kg', r')"
  shows "kg_wf kg'"
proof -
  note c = createRelationship_Inr[OF assms(2)]
  have 1: "\<forall>(k, x) \<in> set (relationshipCache kg'). rel_id x = k"
    using assms(1) set_cache_put[of "rel_maxCacheSize kg" "rel_id r'" r' "relationshipCache kg"] c
    unfolding kg_wf_def by auto
  have 2: "\<forall>(k, x) \<in> set (relFiles kg'). rel_id x = k"
    using assms(1) set_update_subset[of "rel_id r'" r' "relFiles kg"] c
    unfolding kg_wf_def by auto
  have 3: "\<forall>(k, ids) \<in> set (source_index kg'). distinct ids"
    using assms(1) c index_add_distinct unfolding kg_wf_def by metis
  have 4: "\<forall>(k, ids) \<in> set (target_index kg'). distinct ids"
    using assms(1) c index_add_distinct unfolding kg_wf_def by metis
  show ?thesis using 1 2 3 4 by (simp add: kg_wf_def)
qed

lemma kg_wf_new: "kg_wf (new_knowledge_graph sm [] mx)"
  by (simp add: kg_wf_def new_knowledge_graph_def)

lemma getRelationship_resolves:
  assumes "resolves_to kg r"
  shows "(\<exists>kg1. getRelationship kg (rel_id r) = Inr (kg1, r)) \<and>
         (\<forall>j kg1 x. getRelationship kg j = Inr (kg1, x) \<longrightarrow>
            rel_id x = j \<and> resolves_to kg1 r \<and>
            source_index kg1 = source_index kg \<and> target_index kg1 = target_index kg)"
proof (rule conjI)
  show "\<exists>kg1. getRelationship kg (rel_id r) = Inr (kg1, r)"
    using assms by (auto simp: resolves_to_def getRelationship_def readRelFile_def)
next
  show "\<forall>j kg1 x. getRelationship kg j = Inr (kg1, x) \<longrightarrow>
            rel_id x = j \<and> resolves_to kg1 r \<and>
            source_index kg1 = source_index kg \<and> target_index kg1 = target_index kg"
  proof (intro allI impI)
  fix j kg1 x
  assume g: "getRelationship kg j = Inr (kg1, x)"
  have wf: "kg_wf kg" and f: "map_of (relFiles kg) (rel_id r) = Some r"
    and c: "map_of (relationshipCache kg) (rel_id r) = None \<or>
            map_of (relationshipCache kg) (rel_id r) = Some r"
    using assms by (auto simp: resolves_to_def)
  show "rel_id x = j \<and> resolves_to kg1 r \<and>
        source_index kg1 = source_index kg \<and> target_index kg1 = target_index kg"
  proof (cases "map_of (relationshipCache kg) j")
    case (Some y)
    then have "kg1 = kg" "x = y" using g by (auto simp: getRelationship_def)
    moreover have "rel_id y = j" using wf map_of_SomeD[OF Some] by (auto simp: kg_wf_def)
    ultimately show ?thesis using assms by simp
  next
    case None
    then obtain y where fj: "map_of (relFiles kg) j = Some y"
      using g by (auto simp: getRelationship_def readRelFile_def split: option.splits if_splits)
    then have eq: "x = y" "kg1 = cacheRelationship y kg"
      using g None by (auto simp: getRelationship_def readRelFile_def)
    have idy: "rel_id y = j" using wf map_of_SomeD[OF fj] by (auto simp: kg_wf_def)
    let ?c' = "cache_put (rel_maxCacheSize kg) j y (relationshipCache kg)"
    have c': "relationshipCache kg1 = ?c'" by (simp add: eq cacheRelationship_def idy)
    have wf1: "kg_wf kg1"
      using wf set_cache_put[of "rel_maxCacheSize kg" j y "relationshipCache kg"] idy
      unfolding kg_wf_def c' by (auto simp: eq cacheRelationship_def)
    have "map_of ?c' (rel_id r) = None \<or> map_of ?c' (rel_id r) = Some r"
    proof (cases "rel_id r = j")
      case True
      then have "y = r" using f fj by simp
      then show ?thesis using True map_of_cache_put_same[of "rel_maxCacheSize kg" j y] by simp
    next
      case False
      then show ?thesis
        using c map_of_cache_put_other[of "rel_id r" j "rel_maxCacheSize kg" y "relationshipCache kg"]
        by auto
    qed
    then have "resolves_to kg1 r"
      using wf1 f unfolding resolves_to_def c' by (simp add: eq cacheRelationship_def)
    then show ?thesis using idy by (simp add: eq cacheRelationship_def)
  qed
  qed
qed

lemma collectRels_count:
  assumes "resolves_to kg r"
  shows "resolves_to (fst (collectRels None ids (kg, acc))) r \<and>
         count_list (snd (collectRels None ids (kg, acc))) r
           = count_list acc r + count_list ids (rel_id r) \<and>
         source_index (fst (collectRels None ids (kg, acc))) = source_index kg \<and>
         target_index (fst (collectRels None ids (kg, acc))) = target_index kg"
  using assms
proof (induction ids arbitrary: kg acc)
  case Nil
  then show ?case by simp
next
  case (Cons j ids)
  from getRelationship_resolves[OF Cons.prems]
  obtain kg0 where g1: "getRelationship kg (rel_id r) = Inr (kg0, r)"
    and g2: "\<And>j kg1 x. getRelationship kg j = Inr (kg1, x) \<Longrightarrow>
               rel_id x = j \<and> resolves_to kg1 r \<and>
               source_index kg1 = source_index kg \<and> target_index kg1 = target_index kg"
    by blast
  show ?case
  proof (cases "getRelationship kg j")
    case (Inl err)
    then have ne: "j \<noteq> rel_id r" using g1 by auto
    have "collectRels None (j # ids) (kg, acc) = collectRels None ids (kg, acc)"
      using Inl by simp
    then show ?thesis using Cons.IH[OF Cons.prems, of acc] ne by simp
  next
    case (Inr p)
    obtain kg1 x where p: "p = (kg1, x)" by (cases p)
    note x = g2[OF Inr[unfolded p]]
    have xr: "x = r" if "j = rel_id r" using that g1 Inr p by simp
    have cnt: "count_list (acc @ [x]) r = count_list acc r + (if j = rel_id r then 1 else 0)"
      using x xr by auto
    have step: "collectRels None (j # ids) (kg, acc) = collectRels None ids (kg1, acc @ [x])"
      using Inr p by (simp add: truthy_def)
    have ih: "resolves_to (fst (collectRels None ids (kg1, acc @ [x]))) r \<and>
         count_list (snd (collectRels None ids (kg1, acc @ [x]))) r
           = count_list (acc @ [x]) r + count_list ids (rel_id r) \<and>
         source_index (fst (collectRels None ids (kg1, acc @ [x]))) = source_index kg1 \<and>
         target_index (fst (collectRels None ids (kg1, acc @ [x]))) = target_index kg1"
      using Cons.IH[of kg1 "acc @ [x]"] x by blast
    show ?thesis unfolding step using ih cnt x by simp
  qed
qed

lemma count_list_distinct: "distinct xs \<Longrightarrow> x \<in> set xs \<Longrightarrow> count_list xs x = 1"
  by (induction xs) auto

lemma gather_self_loop:
  assumes r: "resolves_to kg r" and e: "sourceId r = e" "targetId r = e"
    and s: "map_of (source_index kg) e = Some sids" "rel_id r \<in> set sids"
    and t: "map_of (target_index kg) e = Some tids" "rel_id r \<in> set tids"
  shows "count_list (snd (gatherRelationships kg e None ''both'')) r = 2"
proof -
  have wf: "kg_wf kg" using r by (simp add: resolves_to_def)
  have ds: "distinct sids" using wf map_of_SomeD[OF s(1)] by (auto simp: kg_wf_def)
  have dt: "distinct tids" using wf map_of_SomeD[OF t(1)] by (auto simp: kg_wf_def)
  let ?s1 = "collectRels None sids (kg, [])"
  note c1 = collectRels_count[OF r, of sids "[]"]
  have c2: "count_list (snd (collectRels None tids ?s1)) r
              = count_list (snd ?s1) r + count_list tids (rel_id r)"
    using collectRels_count[of "fst ?s1" r tids "snd ?s1"] c1 by simp
  have "gatherRelationships kg e None ''both'' = collectRels None tids ?s1"
    using s(1) t(1) c1 by (simp add: gatherRelationships_def Let_def)
  then show ?thesis
    using c1 c2 count_list_distinct[OF ds s(2)] count_list_distinct[OF dt t(2)] by simp
qed

lemma js_slice_all: "int (length xs) \<le> n \<Longrightarrow> js_slice xs 0 n = xs"
  by (simp add: js_slice_def Let_def min_def)

text \<open>
  C10 (a self-loop is listed twice).  Let \<open>createRelationship\<close> return \<open>r'\<close> for a
  relationship whose source and target are the same entity \<open>e\<close>, in a well-formed graph
  object.  Then \<open>listRelationships(e, null, 'both', limit, offset)\<close> gathers \<open>r'\<close> exactly
  twice (once through the source index, once through the target index), \<open>total\<close> is the
  length of the gathered list, so it counts \<open>r'\<close> twice, and the returned array is the
  slice \<open>[offset, offset + limit)\<close> of the gathered list: it holds \<open>r'\<close> twice whenever the
  page covers the list, as the default page of 100 does for an entity with at most 100
  gathered relationships.
\<close>

theorem self_loop_listed_twice:
  assumes "kg_wf kg" and "createRelationship kg r rnd t1 t2 = Inr (kg', r')"
    and "sourceId r = targetId r"
  shows "count_list (snd (gatherRelationships kg' (sourceId r) None ''both'')) r' = 2 \<and>
         lr_total (snd (listRelationships kg' (sourceId r) None ''both'' limit offset))
           = length (snd (gatherRelationships kg' (sourceId r) None ''both'')) \<and>
         lr_relationships (snd (listRelationships kg' (sourceId r) None ''both'' limit offset))
           = js_slice (snd (gatherRelationships kg' (sourceId r) None ''both''))
               offset (offset + limit) \<and>
         (offset = 0 \<and> int (length (snd (gatherRelationships kg' (sourceId r) None ''both''))) \<le> limit
            \<longrightarrow> count_list
                  (lr_relationships (snd (listRelationships kg' (sourceId r) None ''both'' limit offset)))
                  r' = 2)"
proof -
  note c = createRelationship_Inr[OF assms(2)]
  have wf': "kg_wf kg'" by (rule kg_wf_createRelationship[OF assms(1,2)])
  have res: "resolves_to kg' r'"
    using wf' c map_of_cache_put_same[of "rel_maxCacheSize kg" "rel_id r'" r' "relationshipCache kg"]
    by (auto simp: resolves_to_def AList.update_conv')
  obtain sids where s: "map_of (source_index kg') (sourceId r) = Some sids" "rel_id r' \<in> set sids"
    using c index_add_member[of "sourceId r" "rel_id r'" "source_index kg"] by auto
  obtain tids where t: "map_of (target_index kg') (sourceId r) = Some tids" "rel_id r' \<in> set tids"
    using c assms(3) index_add_member[of "sourceId r" "rel_id r'" "target_index kg"] by auto
  have two: "count_list (snd (gatherRelationships kg' (sourceId r) None ''both'')) r' = 2"
    using gather_self_loop[OF res _ _ s t] c assms(3) by simp
  show ?thesis using two by (simp add: listRelationships_def Let_def js_slice_all)
qed

lemma loop_graph_created:
  "createRelationship loop_graph_before self_loop ''r'' ''t1'' ''t2''
     = Inr (loop_graph, stamped self_loop)"
  by code_simp

lemma loop_graph_page:
  "int (length (snd (gatherRelationships loop_graph ''A'' None ''both''))) \<le> 100"
  by code_simp

theorem self_loop_listed_twice_witness:
  "createRelationship loop_graph_before self_loop ''r'' ''t1'' ''t2''
     = Inr (loop_graph, stamped self_loop) \<and>
   lr_total (snd (listRelationships loop_graph ''A'' None ''both'' 100 0)) = 2 \<and>
   count_list (lr_relationships (snd (listRelationships loop_graph ''A'' None ''both'' 100 0)))
     (stamped self_loop) = 2"
proof -
  have wf: "kg_wf loop_graph_before"
    unfolding loop_graph_before_def graph_of_def by (simp add: kg_wf_new)
  have sl: "sourceId self_loop = targetId self_loop" "sourceId self_loop = ''A''"
    by (simp_all add: self_loop_def mk_rel_def)
  note th = self_loop_listed_twice[OF wf loop_graph_created sl(1), of 100 0, unfolded sl(2)]
  have "length (snd (gatherRelationships loop_graph ''A'' None ''both'')) = 2" by code_simp
  with th loop_graph_created loop_graph_page show ?thesis by (simp add: js_slice_all)
qed

lemma tally_bump: "tally (bump i m) j = (if j = i then tally m i + 1 else tally m j)"
  by (simp add: tally_def bump_def AList.update_conv')

lemma tally_ok_bump: "tally_ok m \<Longrightarrow> tally_ok (bump i m)"
  using set_update_subset[of i _ m]
  by (fastforce simp: tally_ok_def bump_def AList.distinct_update)

lemma fold_bump:
  "distinct ents \<Longrightarrow> tally_ok m \<Longrightarrow>
   tally_ok (fold bump ents m) \<and>
   (\<forall>j. tally (fold bump ents m) j = tally m j + (if j \<in> set ents then 1 else 0))"
proof (induction ents arbitrary: m)
  case Nil
  then show ?case by simp
next
  case (Cons a ents)
  have "tally_ok (bump a m)" using Cons.prems by (simp add: tally_ok_bump)
  from Cons.IH[OF _ this] Cons.prems(1) show ?case by (auto simp: tally_bump)
qed

lemma countMatches_fold:
  assumes "index_wf idx" "tally_ok m"
  shows "tally_ok (fold (\<lambda>token m. case map_of idx token of None \<Rightarrow> m
                                   | Some ents \<Rightarrow> fold bump ents m) tokens m) \<and>
         (\<forall>j. tally (fold (\<lambda>token m. case map_of idx token of None \<Rightarrow> m
                                   | Some ents \<Rightarrow> fold bump ents m) tokens m) j
               = tally m j + token_hits idx tokens j)"
  using assms(2)
proof (induction tokens arbitrary: m)
  case Nil
  then show ?case by (simp add: token_hits_def)
next
  case (Cons t tokens)
  show ?case
  proof (cases "map_of idx t")
    case None
    then show ?thesis using Cons.IH[OF Cons.prems] by (simp add: token_hits_def)
  next
    case (Some ents)
    have "distinct ents" using assms(1) map_of_SomeD[OF Some] by (auto simp: index_wf_def)
    note fb = fold_bump[OF this Cons.prems]
    from Cons.IH[of "fold bump ents m"] fb show ?thesis
      using Some by (auto simp: token_hits_def)
  qed
qed

lemma countMatches_tally:
  assumes "index_wf idx"
  shows "tally_ok (countMatches idx tokens) \<and>
         (\<forall>j. tally (countMatches idx tokens) j = token_hits idx tokens j)"
  using countMatches_fold[OF assms, of "[]" tokens]
  by (simp add: countMatches_def tally_ok_def tally_def)

lemma map_of_countMatches:
  assumes "index_wf idx"
  shows "map_of (countMatches idx tokens) i =
           (if token_hits idx tokens i = 0 then None else Some (token_hits idx tokens i))"
proof -
  have ok: "tally_ok (countMatches idx tokens)"
    and t: "tally (countMatches idx tokens) i = token_hits idx tokens i"
    using countMatches_tally[OF assms, of tokens] by blast+
  show ?thesis
  proof (cases "map_of (countMatches idx tokens) i")
    case None
    then show ?thesis using t by (simp add: tally_def)
  next
    case (Some c)
    then have "c > 0" using ok map_of_SomeD[OF Some] by (auto simp: tally_ok_def)
    then show ?thesis using Some t by (simp add: tally_def)
  qed
qed

lemma map_of_scoreEntities:
  assumes "index_wf idx"
  shows "map_of (scoreEntities idx tokens) i =
           (if token_hits idx tokens i = 0 then None
            else Some (of_nat (token_hits idx tokens i) / of_nat (length tokens)))"
  unfolding scoreEntities_def
  by (simp add: map_of_map map_of_countMatches[OF assms])

lemma resolveItems_sound:
  "(e, x) \<in> set (snd (resolveItems ctx items st)) \<Longrightarrow>
   \<exists>i st1 st2. (i, x) \<in> set items \<and> getEntity st1 i ctx = Inr (st2, e)"
proof (induction items arbitrary: st)
  case Nil
  then show ?case by simp
next
  case (Cons it items)
  obtain i y where it: "it = (i, y)" by (cases it)
  show ?case
  proof (cases "getEntity st i ctx")
    case (Inl err)
    then show ?thesis using Cons it by fastforce
  next
    case (Inr p)
    obtain st1 e1 where p: "p = (st1, e1)" by (cases p)
    have "(e, x) = (e1, y) \<or> (e, x) \<in> set (snd (resolveItems ctx items st1))"
      using Cons.prems it Inr p by (auto split: prod.splits)
    then show ?thesis
    proof
      assume "(e, x) = (e1, y)"
      then show ?thesis using Inr p it by auto
    next
      assume "(e, x) \<in> set (snd (resolveItems ctx items st1))"
      from Cons.IH[OF this] show ?thesis by auto
    qed
  qed
qed

lemma searchByText_results_scored:
  assumes "(e, sc) \<in> set (sr_results (snd (searchByText st q opts)))"
  shows "\<exists>i st1 st2. (i, sc) \<in> set (scoreEntities (text_index st) (tokenizeText q)) \<and>
           sc \<ge> opt_threshold opts \<and> cache_filter st opts i \<and>
           getEntity st1 i (opt_context opts) = Inr (st2, e)"
proof -
  let ?scored = "scoreEntities (text_index st) (tokenizeText q)"
  let ?results = "filter (\<lambda>item. cache_filter st opts (fst item))
                    (sort_key (\<lambda>item. - snd item)
                       (filter (\<lambda>item. snd item \<ge> opt_threshold opts) ?scored))"
  let ?page = "js_slice ?results (opt_offset opts) (opt_offset opts + opt_limit opts)"
  have "(e, sc) \<in> set (snd (resolveItems (opt_context opts) ?page st))"
    using assms by (simp add: searchByText_def Let_def)
  from resolveItems_sound[OF this]
  obtain i st1 st2 where i: "(i, sc) \<in> set ?page"
    and g: "getEntity st1 i (opt_context opts) = Inr (st2, e)"
    by auto
  have "(i, sc) \<in> set ?results" using i by (rule subsetD[OF set_js_slice])
  then show ?thesis using g by auto
qed

lemma search_alpha_beta:
  "sr_results (snd (searchByText store_x ''alpha beta'' default_options))
     = [(entity_x\<lparr>created := ''t1'', updated := ''t2''\<rparr>, 1)]"
  by code_simp

lemma search_alpha_zeta:
  "sr_results (snd (searchByText store_x ''alpha zeta'' default_options))
     = [(entity_x\<lparr>created := ''t1'', updated := ''t2''\<rparr>, 1 / 2)]"
  by code_simp

lemma index_wf_store_x: "index_wf (text_index store_x)"
  by code_simp

lemma distinct_scoreEntities:
  assumes "index_wf idx"
  shows "distinct (map fst (scoreEntities idx tokens))"
proof -
  have "map fst (scoreEntities idx tokens) = map fst (countMatches idx tokens)"
    by (simp add: scoreEntities_def case_prod_unfold comp_def)
  then show ?thesis using countMatches_tally[OF assms, of tokens] by (simp add: tally_ok_def)
qed

lemma index_wf_index_add: "index_wf idx \<Longrightarrow> index_wf (index_add k i idx)"
  unfolding index_wf_def by (rule index_add_distinct)

lemma index_wf_fold_index_add:
  "index_wf idx \<Longrightarrow> index_wf (fold (\<lambda>token idx. index_add token i idx) ts idx)"
  by (induction ts arbitrary: idx) (simp_all add: index_wf_index_add)

lemma index_wf_indexText:
  "index_wf (text_index st) \<Longrightarrow> index_wf (text_index (indexText i txt st))"
  by (simp add: indexText_def index_wf_fold_index_add)

text \<open>
  C6 (text search score).  With a text index whose sets hold each id once, the scored
  entries of \<open>searchByText\<close> give an entity id the number of query tokens whose index set
  holds it, divided by the number of query tokens, and give no entry to an id that no token
  hits; every returned pair \<open>(entity, score)\<close> is the entity resolved for such an id with
  that score.  For the stored entity \<open>x\<close> with content \<open>alpha beta gamma\<close>,
  \<open>searchByText("alpha beta")\<close> returns \<open>x\<close> with score 1 and \<open>searchByText("alpha zeta")\<close>
  returns \<open>x\<close> with score 1/2.
\<close>

theorem searchByText_score:
  assumes "index_wf (text_index st)"
  shows "(\<forall>i. map_of (scoreEntities (text_index st) (tokenizeText q)) i =
              (if token_hits (text_index st) (tokenizeText q) i = 0 then None
               else Some (of_nat (token_hits (text_index st) (tokenizeText q) i)
                            / of_nat (length (tokenizeText q))))) \<and>
         (\<forall>e sc. (e, sc) \<in> set (sr_results (snd (searchByText st q opts))) \<longrightarrow>
            (\<exists>i st1 st2.
               sc = of_nat (token_hits (text_index st) (tokenizeText q) i)
                      / of_nat (length (tokenizeText q)) \<and>
               0 < token_hits (text_index st) (tokenizeText q) i \<and>
               getEntity st1 i (opt_context opts) = Inr (st2, e))) \<and>
         sr_results (snd (searchByText store_x ''alpha beta'' default_options))
           = [(entity_x\<lparr>created := ''t1'', updated := ''t2''\<rparr>, 1)] \<and>
         sr_results (snd (searchByText store_x ''alpha zeta'' default_options))
           = [(entity_x\<lparr>created := ''t1'', updated := ''t2''\<rparr>, 1 / 2)]"
proof (intro conjI allI impI)
  fix i
  show "map_of (scoreEntities (text_index st) (tokenizeText q)) i =
              (if token_hits (text_index st) (tokenizeText q) i = 0 then None
               else Some (of_nat (token_hits (text_index st) (tokenizeText q) i)
                            / of_nat (length (tokenizeText q))))"
    by (rule map_of_scoreEntities[OF assms])
next
  fix e sc
  assume "(e, sc) \<in> set (sr_results (snd (searchByText st q opts)))"
  from searchByText_results_scored[OF this]
  obtain i st1 st2 where m: "(i, sc) \<in> set (scoreEntities (text_index st) (tokenizeText q))"
    and g: "getEntity st1 i (opt_context opts) = Inr (st2, e)" by blast
  have "map_of (scoreEntities (text_index st) (tokenizeText q)) i = Some sc"
    using m distinct_scoreEntities[OF assms] by simp
  then have "sc = of_nat (token_hits (text_index st) (tokenizeText q) i)
                      / of_nat (length (tokenizeText q)) \<and>
             0 < token_hits (text_index st) (tokenizeText q) i"
    unfolding map_of_scoreEntities[OF assms] by (auto split: if_splits)
  then show "\<exists>i st1 st2.
               sc = of_nat (token_hits (text_index st) (tokenizeText q) i)
                      / of_nat (length (tokenizeText q)) \<and>
               0 < token_hits (text_index st) (tokenizeText q) i \<and>
               getEntity st1 i (opt_context opts) = Inr (st2, e)"
    using g by blast
next
  show "sr_results (snd (searchByText store_x ''alpha beta'' default_options))
           = [(entity_x\<lparr>created := ''t1'', updated := ''t2''\<rparr>, 1)]"
    by (rule search_alpha_beta)
next
  show "sr_results (snd (searchByText store_x ''alpha zeta'' default_options))
           = [(entity_x\<lparr>created := ''t1'', updated := ''t2''\<rparr>, 1 / 2)]"
    by (rule search_alpha_zeta)
qed

theorem searchByText_score_witness:
  "index_wf (text_index store_x) \<and>
   map_of (scoreEntities (text_index store_x) (tokenizeText ''alpha zeta'')) ''x'' = Some (1 / 2) \<and>
   (\<exists>i st1 st2.
      (1 / 2 :: rat) = of_nat (token_hits (text_index store_x) (tokenizeText ''alpha zeta'') i)
                      / of_nat (length (tokenizeText ''alpha zeta'')) \<and>
      getEntity st1 i None = Inr (st2, entity_x\<lparr>created := ''t1'', updated := ''t2''\<rparr>))"
proof -
  note th = searchByText_score[OF index_wf_store_x, of "''alpha zeta''" default_options]
  have h: "token_hits (text_index store_x) (tokenizeText ''alpha zeta'') ''x'' = 1"
          "length (tokenizeText ''alpha zeta'') = 2"
    by code_simp+
  have 1: "map_of (scoreEntities (text_index store_x) (tokenizeText ''alpha zeta'')) ''x''
            = Some (1 / 2)"
    using th h by simp
  have "(entity_x\<lparr>created := ''t1'', updated := ''t2''\<rparr>, 1 / 2)
          \<in> set (sr_results (snd (searchByText store_x ''alpha zeta'' default_options)))"
    using th by simp
  with th have "\<exists>i st1 st2.
      (1 / 2 :: rat) = of_nat (token_hits (text_index store_x) (tokenizeText ''alpha zeta'') i)
                      / of_nat (length (tokenizeText ''alpha zeta'')) \<and>
      0 < token_hits (text_index store_x) (tokenizeText ''alpha zeta'') i \<and>
      getEntity st1 i (opt_context default_options)
        = Inr (st2, entity_x\<lparr>created := ''t1'', updated := ''t2''\<rparr>)"
    by blast
  then show ?thesis using 1 index_wf_store_x by (auto simp: default_options_def)
qed

section \<open>Metadata search\<close>

lemma set_id_set: "set (id_set xs) = set xs"
proof -
  have "set (fold set_add xs acc) = set acc \<union> set xs" for acc
    by (induction xs arbitrary: acc) (auto simp: set_add_def)
  then show ?thesis by (simp add: id_set_def)
qed

lemma set_fold_set_add: "set (fold set_add xs acc) = set acc \<union> set xs"
  by (induction xs arbitrary: acc) (auto simp: set_add_def)

lemma set_fold_intersect:
  "set (fold (\<lambda>s acc. filter (\<lambda>i. i \<in> set s) acc) rest acc)
     = set acc \<inter> (\<Inter>s \<in> set rest. set s)"
  by (induction rest arbitrary: acc) auto

lemma set_fold_union:
  "set (fold (\<lambda>s acc. fold set_add s acc) sets acc) = set acc \<union> (\<Union>s \<in> set sets. set s)"
  by (induction sets arbitrary: acc) (auto simp: set_fold_set_add)

lemma set_combineSets_all:
  "set (combineSets True sets) = (if sets = [] then {} else (\<Inter>s \<in> set sets. set s))"
  by (cases sets) (auto simp: combineSets_def set_fold_intersect set_id_set)

lemma set_combineSets_any: "set (combineSets False sets) = (\<Union>s \<in> set sets. set s)"
  by (simp add: combineSets_def set_fold_union)

lemma set_matchingSets:
  "set (matchingSets midx md) =
     {s. \<exists>key v valueMap. (key, v) \<in> set md \<and> map_of midx key = Some valueMap \<and>
                           map_of valueMap (js_String v) = Some s}"
  by (auto simp: matchingSets_def split: option.splits) force+

lemma resolveItems_cached:
  assumes "list_all (\<lambda>(i, x). map_of (entityCache st) i \<noteq> None) items"
  shows "resolveItems ctx items st =
           (st, map (\<lambda>(i, x). (the (map_of (entityCache st) i), x)) items)"
  using assms
  by (induction items) (auto simp: getEntity_def)

lemma search_red_large_all:
  "sr_results (snd (searchByMetadata store_tagged
       [(''color'', MStr ''red''), (''size'', MStr ''large'')] default_options))
     = [(stored entity_red_large, ())]"
  by code_simp

lemma search_red_large_any:
  "sr_results (snd (searchByMetadata store_tagged
       [(''color'', MStr ''red''), (''size'', MStr ''large'')]
       (default_options\<lparr>opt_matchAll := False\<rparr>)))
     = [(stored entity_red, ()), (stored entity_red_large, ())]"
  by code_simp

lemma searchByMetadata_unfold:
  "searchByMetadata st md opts =
     (let ids = filter (cache_filter st opts)
                  (combineSets (opt_matchAll opts) (matchingSets (metadata_index st) md));
          resolved = resolveItems (opt_context opts)
                       (map (\<lambda>i. (i, ()))
                          (js_slice ids (opt_offset opts) (opt_offset opts + opt_limit opts))) st
      in (fst resolved,
          \<lparr> sr_results = snd resolved, sr_total = length ids,
            sr_limit = opt_limit opts, sr_offset = opt_offset opts \<rparr>))"
proof (cases "matchingSets (metadata_index st) md = []")
  case True
  then show ?thesis
    by (simp add: searchByMetadata_def Let_def combineSets_def js_slice_def)
next
  case False
  then show ?thesis by (simp add: searchByMetadata_def Let_def)
qed

text \<open>
  C7 (metadata search: intersection or union).  The matching sets are the index sets of
  the key/value pairs of the query that the metadata index holds.  With \<open>matchAll\<close> the
  matching ids are exactly the intersection of these sets (no id when there is no set),
  without \<open>matchAll\<close> exactly their union.  \<open>searchByMetadata\<close> filters these ids through
  the cache filter, counts them in \<open>total\<close>, and returns the entities resolved for the page
  \<open>[offset, offset + limit)\<close> of them; with no \<open>agentId\<close> or \<open>type\<close> filter, a page that
  covers the ids and every id cached, the returned entities are those of the matching ids,
  one for one.  For the two tagged entities, the query \<open>{color: "red", size: "large"}\<close>
  returns only the second with \<open>matchAll\<close> and both without.
\<close>

theorem searchByMetadata_combination:
  "set (matchingSets (metadata_index st) md) =
     {s. \<exists>key v valueMap. (key, v) \<in> set md \<and> map_of (metadata_index st) key = Some valueMap \<and>
                           map_of valueMap (js_String v) = Some s} \<and>
   set (combineSets True sets) = (if sets = [] then {} else (\<Inter>s \<in> set sets. set s)) \<and>
   set (combineSets False sets) = (\<Union>s \<in> set sets. set s) \<and>
   sr_total (snd (searchByMetadata st md opts)) =
     length (filter (cache_filter st opts)
               (combineSets (opt_matchAll opts) (matchingSets (metadata_index st) md))) \<and>
   (\<forall>e u. (e, u) \<in> set (sr_results (snd (searchByMetadata st md opts))) \<longrightarrow>
      (\<exists>i st1 st2. i \<in> set (combineSets (opt_matchAll opts) (matchingSets (metadata_index st) md)) \<and>
                   cache_filter st opts i \<and>
                   getEntity st1 i (opt_context opts) = Inr (st2, e))) \<and>
   (\<not> truthy (opt_agentId opts) \<and> \<not> truthy (opt_type opts) \<and> opt_offset opts = 0 \<and>
    int (length (combineSets (opt_matchAll opts) (matchingSets (metadata_index st) md)))
      \<le> opt_limit opts \<and>
    list_all (\<lambda>i. map_of (entityCache st) i \<noteq> None)
      (combineSets (opt_matchAll opts) (matchingSets (metadata_index st) md)) \<longrightarrow>
    list_all2 (\<lambda>r i. map_of (entityCache st) i = Some (fst r))
      (sr_results (snd (searchByMetadata st md opts)))
      (combineSets (opt_matchAll opts) (matchingSets (metadata_index st) md))) \<and>
   sr_results (snd (searchByMetadata store_tagged
       [(''color'', MStr ''red''), (''size'', MStr ''large'')] default_options))
     = [(stored entity_red_large, ())] \<and>
   sr_results (snd (searchByMetadata store_tagged
       [(''color'', MStr ''red''), (''size'', MStr ''large'')]
       (default_options\<lparr>opt_matchAll := False\<rparr>)))
     = [(stored entity_red, ()), (stored entity_red_large, ())]"
proof -
  let ?ids = "combineSets (opt_matchAll opts) (matchingSets (metadata_index st) md)"
  let ?fids = "filter (cache_filter st opts) ?ids"
  let ?page = "js_slice ?fids (opt_offset opts) (opt_offset opts + opt_limit opts)"
  have total: "sr_total (snd (searchByMetadata st md opts)) = length ?fids"
    by (simp add: searchByMetadata_unfold Let_def)
  have res: "sr_results (snd (searchByMetadata st md opts))
               = snd (resolveItems (opt_context opts) (map (\<lambda>i. (i, ())) ?page) st)"
    by (simp add: searchByMetadata_unfold Let_def)
  have sound: "\<exists>i st1 st2. i \<in> set ?ids \<and> cache_filter st opts i \<and>
                 getEntity st1 i (opt_context opts) = Inr (st2, e)"
    if "(e, u) \<in> set (sr_results (snd (searchByMetadata st md opts)))" for e u
  proof -
    from that[unfolded res] resolveItems_sound
    obtain i st1 st2 where i: "(i, u) \<in> set (map (\<lambda>i. (i, ())) ?page)"
      and g: "getEntity st1 i (opt_context opts) = Inr (st2, e)" by meson
    have "i \<in> set ?page" using i by auto
    then have "i \<in> set ?fids" by (rule subsetD[OF set_js_slice])
    then show ?thesis using g by auto
  qed
  have exact: "list_all2 (\<lambda>r i. map_of (entityCache st) i = Some (fst r))
                 (sr_results (snd (searchByMetadata st md opts))) ?ids"
    if h: "\<not> truthy (opt_agentId opts) \<and> \<not> truthy (opt_type opts) \<and> opt_offset opts = 0 \<and>
           int (length ?ids) \<le> opt_limit opts \<and>
           list_all (\<lambda>i. map_of (entityCache st) i \<noteq> None) ?ids"
  proof -
    have f: "?fids = ?ids" using h by (simp add: cache_filter_def)
    have p: "?page = ?ids" using h unfolding f by (simp add: js_slice_all)
    have c: "list_all (\<lambda>(i, x). map_of (entityCache st) i \<noteq> None) (map (\<lambda>i. (i, ())) ?ids)"
      using h by (simp add: list_all_iff)
    show ?thesis
      unfolding res p resolveItems_cached[OF c] using h
      by (auto simp: list_all2_conv_all_nth list_all_iff)
  qed
  show ?thesis
  proof (intro conjI)
    show "set (matchingSets (metadata_index st) md) =
     {s. \<exists>key v valueMap. (key, v) \<in> set md \<and> map_of (metadata_index st) key = Some valueMap \<and>
                           map_of valueMap (js_String v) = Some s}"
      by (rule set_matchingSets)
    show "set (combineSets True sets) = (if sets = [] then {} else (\<Inter>s \<in> set sets. set s))"
      by (rule set_combineSets_all)
    show "set (combineSets False sets) = (\<Union>s \<in> set sets. set s)"
      by (rule set_combineSets_any)
    show "sr_total (snd (searchByMetadata st md opts)) = length ?fids" by (rule total)
    show "\<forall>e u. (e, u) \<in> set (sr_results (snd (searchByMetadata st md opts))) \<longrightarrow>
      (\<exists>i st1 st2. i \<in> set ?ids \<and> cache_filter st opts i \<and>
                   getEntity st1 i (opt_context opts) = Inr (st2, e))"
      using sound by blast
    show "\<not> truthy (opt_agentId opts) \<and> \<not> truthy (opt_type opts) \<and> opt_offset opts = 0 \<and>
           int (length ?ids) \<le> opt_limit opts \<and>
           list_all (\<lambda>i. map_of (entityCache st) i \<noteq> None) ?ids \<longrightarrow>
          list_all2 (\<lambda>r i. map_of (entityCache st) i = Some (fst r))
                 (sr_results (snd (searchByMetadata st md opts))) ?ids"
      using exact by blast
    show "sr_results (snd (searchByMetadata store_tagged
       [(''color'', MStr ''red''), (''size'', MStr ''large'')] default_options))
     = [(stored entity_red_large, ())]" by (rule search_red_large_all)
    show "sr_results (snd (searchByMetadata store_tagged
       [(''color'', MStr ''red''), (''size'', MStr ''large'')]
       (default_options\<lparr>opt_matchAll := False\<rparr>)))
     = [(stored entity_red, ()), (stored entity_red_large, ())]" by (rule search_red_large_any)
  qed
qed

theorem searchByMetadata_combination_witness:
  "combineSets True (matchingSets (metadata_index store_tagged)
       [(''color'', MStr ''red''), (''size'', MStr ''large'')]) = [''e2''] \<and>
   list_all2 (\<lambda>r i. map_of (entityCache store_tagged) i = Some (fst r))
     (sr_results (snd (searchByMetadata store_tagged
        [(''color'', MStr ''red''), (''size'', MStr ''large'')] default_options)))
     [''e2'']"
proof -
  let ?q = "[(''color'', MStr ''red''), (''size'', MStr ''large'')]"
  have ids: "combineSets (opt_matchAll default_options)
               (matchingSets (metadata_index store_tagged) ?q) = [''e2'']"
    by code_simp
  have h: "\<not> truthy (opt_agentId default_options) \<and> \<not> truthy (opt_type default_options) \<and>
           opt_offset default_options = 0 \<and>
           int (length [''e2'']) \<le> opt_limit default_options \<and>
           list_all (\<lambda>i. map_of (entityCache store_tagged) i \<noteq> None) [''e2'']"
    by code_simp
  have m: "opt_matchAll default_options = True" by (simp add: default_options_def)
  from searchByMetadata_combination[of store_tagged ?q "[]" default_options] h
  show ?thesis unfolding ids using ids[unfolded m] by blast
qed

lemma findInDirs_probe:
  "findInDirs st mk ds i = map_option (\<lambda>e. (cacheEntity e st, e)) (probeDirs (files st) mk ds i)"
  by (induction ds) (auto simp: readEntityFile_def split: option.splits)

lemma findEntityInContext_probe:
  "findEntityInContext st i ctx =
     (case probeContext st i ctx of
        Some e \<Rightarrow> Inr (cacheEntity e st, e)
      | None \<Rightarrow> Inl (Error (''Entity not found: '' @ i)))"
  by (auto simp: findEntityInContext_def probeContext_def findInDirs_probe readEntityFile_def Let_def
        split: option.splits)

lemma findInContexts_probe:
  "findInContexts st i ctxs =
     (case probeContexts st i ctxs of
        Some e \<Rightarrow> Inr (cacheEntity e st, e)
      | None \<Rightarrow> Inl (Error (''Entity not found: '' @ i)))"
  by (induction ctxs) (auto simp: findEntityInContext_probe split: option.splits)

lemma getEntity_probe:
  "getEntity st i None =
     (case map_of (entityCache st) i of
        Some e \<Rightarrow> Inr (st, e)
      | None \<Rightarrow>
          (case probe st i of
             Some e \<Rightarrow> Inr (cacheEntity e st, e)
           | None \<Rightarrow> Inl (Error (''Entity not found: '' @ i))))"
  by (simp add: getEntity_def truthy_def findInContexts_probe probe_def split: option.splits)

lemma resolves_iff:
  "resolves st i \<longleftrightarrow> map_of (entityCache st) i \<noteq> None \<or> probe st i \<noteq> None"
  by (auto simp: resolves_def getEntity_probe split: option.splits)

lemma probeDirs_file: "probeDirs fs mk ds i = Some e \<Longrightarrow> \<exists>d. map_of fs (d, i) = Some e"
  by (induction ds) (auto split: option.splits)

lemma probe_file: "probe st i = Some e \<Longrightarrow> \<exists>d. map_of (files st) (d, i) = Some e"
  by (auto simp: probe_def probeContext_def split: option.splits if_splits dest: probeDirs_file)

lemma probe_id: "sm_wf st \<Longrightarrow> probe st i = Some e \<Longrightarrow> ent_id e = i"
  by (fastforce simp: sm_wf_def dest!: probe_file map_of_SomeD)

lemma probeContext_cache:
  "probeContext (st\<lparr>entityCache := c\<rparr>) i ctx = probeContext st i ctx"
  by (simp add: probeContext_def)

lemma probeContexts_cache:
  "probeContexts (st\<lparr>entityCache := c\<rparr>) i ctxs = probeContexts st i ctxs"
  by (induction ctxs) (auto simp: probeContext_cache split: option.splits)

lemma probe_cacheEntity [simp]: "probe (cacheEntity e st) i = probe st i"
  unfolding probe_def cacheEntity_def by (rule probeContexts_cache)

lemma sm_wf_cacheEntity: "sm_wf st \<Longrightarrow> sm_wf (cacheEntity e st)"
  using set_cache_put[of "maxCacheSize st" "ent_id e" e "entityCache st"]
  by (auto simp: sm_wf_def cacheEntity_def)

lemma getEntity_Inr:
  assumes "sm_wf st" "getEntity st c None = Inr (st', e)"
  shows "ent_id e = c \<and> sm_wf st' \<and> (st' = st \<or> st' = cacheEntity e st) \<and>
         (\<forall>i. probe st' i = probe st i)"
proof (cases "map_of (entityCache st) c")
  case (Some e')
  then have "st' = st" "e = e'" using assms(2) by (auto simp: getEntity_probe)
  moreover have "ent_id e' = c" using assms(1) map_of_SomeD[OF Some] by (auto simp: sm_wf_def)
  ultimately show ?thesis using assms(1) by simp
next
  case None
  then obtain e' where p: "probe st c = Some e'"
    using assms(2) by (auto simp: getEntity_probe split: option.splits)
  then have "st' = cacheEntity e st" "e = e'" using assms(2) None by (auto simp: getEntity_probe)
  then show ?thesis using probe_id[OF assms(1) p] sm_wf_cacheEntity[OF assms(1)] by simp
qed

lemma unresolved_stable:
  assumes "sm_wf st" "\<not> resolves st T" "getEntity st c None = Inr (st', e)"
  shows "\<not> resolves st' T \<and> c \<noteq> T"
proof -
  note g = getEntity_Inr[OF assms(1,3)]
  have cT: "c \<noteq> T" using assms(2,3) by (auto simp: resolves_def)
  have "map_of (entityCache st') T = None"
  proof (cases "st' = st")
    case True
    then show ?thesis using assms(2) by (simp add: resolves_iff)
  next
    case False
    then have "st' = cacheEntity e st" using g by blast
    then show ?thesis
      using map_of_cache_put_other[of T "ent_id e" "maxCacheSize st" e "entityCache st"]
        g cT assms(2)
      by (auto simp: cacheEntity_def resolves_iff)
  qed
  then show ?thesis using g assms(2) cT by (simp add: resolves_iff)
qed

lemma skips_visitRelationship: "skips T s \<Longrightarrow> skips T (visitRelationship e d tys r s)"
proof (cases "case tys of None \<Rightarrow> False | Some ts \<Rightarrow> rel_type r \<notin> set ts")
  case True
  then show "skips T s \<Longrightarrow> ?thesis" by (simp add: visitRelationship_def)
next
  case typed: False
  assume sk: "skips T s"
  let ?c = "connectedEntityId e r"
  show ?thesis
  proof (cases "?c \<in> visited s")
    case True
    then show ?thesis using typed sk by (simp add: visitRelationship_def Let_def skips_def)
  next
    case fresh: False
    show ?thesis
    proof (cases "getEntity (storageManager (bfs_kg s)) ?c None")
      case (Inl err)
      then show ?thesis using typed fresh sk
        by (simp add: visitRelationship_def Let_def skips_def)
    next
      case (Inr p)
      obtain sm' ce where p: "p = (sm', ce)" by (cases p)
      have wf: "sm_wf (storageManager (bfs_kg s))" and un: "\<not> resolves (storageManager (bfs_kg s)) T"
        using sk by (simp_all add: skips_def)
      note g = getEntity_Inr[OF wf Inr[unfolded p]]
      note u = unresolved_stable[OF wf un Inr[unfolded p]]
      let ?s2 = "s\<lparr>result := addRelationship r (result s), visited := insert ?c (visited s)\<rparr>"
      have eq: "visitRelationship e d tys r s = addConnected e d r sm' ce ?s2"
        using typed fresh Inr p by (simp add: visitRelationship_def Let_def)
      show ?thesis using sk g u unfolding eq
        by (auto simp: skips_def addConnected_def Let_def split: option.splits)
    qed
  qed
qed

lemma skips_fold:
  "skips T s \<Longrightarrow> skips T (fold (visitRelationship e d tys) rs s)"
  by (induction rs arbitrary: s) (simp_all add: skips_visitRelationship)

lemma skips_loop:
  assumes "traverseBFS_loop tys md dir s = Some s'" "skips T s"
  shows "skips T s'"
proof -
  have "skips T s' \<and> queue s' = []"
  proof (rule traverseBFS_loop_invariant[OF assms(1), where I = "skips T"])
    show "skips T s" by (rule assms(2))
  next
    fix s item rest
    assume "skips T s"
    then show "skips T (s\<lparr>queue := rest\<rparr>)" by (simp add: skips_def)
  next
    fix s and item :: "string \<times> int" and rest :: "(string \<times> int) list"
    assume sk: "skips T s"
    let ?L = "listRelationships (bfs_kg s) (fst item) None dir 1000 0"
    have "storageManager (fst ?L) = storageManager (bfs_kg s)"
      using listRelationships_props[of "bfs_kg s" "fst item" None dir 1000 0 "fst ?L" "snd ?L"]
      by simp
    then have "skips T (s\<lparr>queue := rest, bfs_kg := fst ?L\<rparr>)"
      using sk by (simp add: skips_def)
    then show "skips T (fold (visitRelationship (fst item) (snd item) tys)
                      (lr_relationships (snd ?L)) (s\<lparr>queue := rest, bfs_kg := fst ?L\<rparr>))"
      by (rule skips_fold)
  qed
  then show ?thesis by simp
qed

text \<open>
  C8 (dangling relationships are tolerated).  Let \<open>r\<close> be a relationship whose target does
  not resolve to an entity while its source does, in a store whose entities are cached and
  filed under their own ids.  Then \<open>traverseGraph\<close> from the source of \<open>r\<close> ends without
  raising, for every type filter, depth and direction, and no returned entity has the id of
  the unresolved target.
\<close>

theorem dangling_target_skipped:
  assumes "sm_wf (storageManager kg)"
    and "\<not> resolves (storageManager kg) (targetId r)"
    and "resolves (storageManager kg) (sourceId r)"
  shows "\<exists>kg' res. traverseGraph kg (sourceId r) tys maxDepth dir = Some (Inr (kg', res)) \<and>
           targetId r \<notin> ent_id ` set (entities res)"
proof -
  obtain sm' startEntity where
    g: "getEntity (storageManager kg) (sourceId r) None = Inr (sm', startEntity)"
    using assms(3) by (auto simp: resolves_def split: sum.splits)
  let ?s0 = "\<lparr> bfs_kg = kg\<lparr>storageManager := sm'\<rparr>, visited = {sourceId r},
               result = \<lparr> entities = [startEntity], relationships = [],
                          paths = [sourceId r \<mapsto> \<lparr>distance = 0, path = []\<rparr>] \<rparr>,
               queue = [(sourceId r, 0)] \<rparr>"
  obtain s' where run: "traverseBFS_loop tys maxDepth dir ?s0 = Some s'"
    using traverseBFS_loop_terminates by blast
  have "skips (targetId r) ?s0"
    using getEntity_Inr[OF assms(1) g] unresolved_stable[OF assms(1,2) g]
    by (auto simp: skips_def)
  from skips_loop[OF run this] have "targetId r \<notin> ent_id ` set (entities (result s'))"
    by (simp add: skips_def)
  then show ?thesis using g run by (simp add: traverseGraph_def traverseBFS_def)
qed

theorem dangling_target_skipped_witness:
  "sm_wf (storageManager dangling_graph) \<and>
   \<not> resolves (storageManager dangling_graph) ''X'' \<and>
   resolves (storageManager dangling_graph) ''A'' \<and>
   (\<exists>kg' res. traverseGraph dangling_graph ''A'' None 3 ''both'' = Some (Inr (kg', res)) \<and>
      ''X'' \<notin> ent_id ` set (entities res))"
proof -
  have h: "sm_wf (storageManager dangling_graph)"
          "\<not> resolves (storageManager dangling_graph) (targetId dangling_rel)"
          "resolves (storageManager dangling_graph) (sourceId dangling_rel)"
    by code_simp+
  have e: "targetId dangling_rel = ''X''" "sourceId dangling_rel = ''A''"
    by (simp_all add: dangling_rel_def mk_rel_def)
  from dangling_target_skipped[OF h, of None 3 "''both''"] h show ?thesis
    unfolding e by simp
qed

lemma first_error_None: "first_error xs = None \<Longrightarrow> xs = map Inr (successes xs)"
  by (induction xs rule: first_error.induct) auto















section \<open>Shortest paths of the traversal\<close>

lemma same_store_refl [simp]: "same_store st st"
  by (simp add: same_store_def)

lemma same_graph_refl [simp]: "same_graph kg kg"
  by (simp add: same_graph_def)

lemma same_store_trans: "same_store a b \<Longrightarrow> same_store b c \<Longrightarrow> same_store a c"
  by (simp add: same_store_def)

lemma same_graph_trans: "same_graph a b \<Longrightarrow> same_graph b c \<Longrightarrow> same_graph a c"
  by (auto simp: same_graph_def intro: same_store_trans)





lemma same_store_cacheEntity [simp]: "same_store st (cacheEntity e st)"
  by (simp add: same_store_def cacheEntity_def)





lemma readable_Nil [simp]: "readable fs ty [] = []"
  by (simp add: readable_def List.map_filter_simps)

lemma readable_Cons:
  "readable fs ty (i # ids) =
     (case map_of fs i of
        None \<Rightarrow> readable fs ty ids
      | Some r \<Rightarrow> (if \<not> truthy ty \<or> rel_type r = the ty then [r] else []) @ readable fs ty ids)"
  by (simp add: readable_def List.map_filter_simps split: option.splits)

lemma rel_coherent_cache_upd:
  "rel_coherent (kg\<lparr>relationshipCache := c\<rparr>) \<longleftrightarrow>
     ((\<forall>(j, r) \<in> set (relFiles kg). rel_id r = j) \<and>
      (\<forall>(j, r) \<in> set c. map_of (relFiles kg) j = Some r))"
  by (simp add: rel_coherent_def)

lemma getRelationship_coherent:
  assumes "rel_coherent kg"
  shows "(map_of (relFiles kg) i = None \<and> (\<exists>err. getRelationship kg i = Inl err)) \<or>
         (\<exists>r c. map_of (relFiles kg) i = Some r \<and>
                getRelationship kg i = Inr (kg\<lparr>relationshipCache := c\<rparr>, r) \<and>
                rel_coherent (kg\<lparr>relationshipCache := c\<rparr>))"
proof (cases "map_of (relationshipCache kg) i")
  case (Some r)
  then have "map_of (relFiles kg) i = Some r"
    using assms map_of_SomeD[OF Some] by (auto simp: rel_coherent_def)
  moreover have "getRelationship kg i = Inr (kg\<lparr>relationshipCache := relationshipCache kg\<rparr>, r)"
    using Some by (simp add: getRelationship_def)
  moreover have "rel_coherent (kg\<lparr>relationshipCache := relationshipCache kg\<rparr>)"
    using assms by simp
  ultimately show ?thesis by blast
next
  case None
  show ?thesis
  proof (cases "map_of (relFiles kg) i")
    case n: None
    then show ?thesis using None by (simp add: getRelationship_def readRelFile_def)
  next
    case (Some r)
    then have "(i, r) \<in> set (relFiles kg)" by (rule map_of_SomeD)
    then have id: "rel_id r = i" using assms by (auto simp: rel_coherent_def)
    let ?c = "cache_put (rel_maxCacheSize kg) (rel_id r) r (relationshipCache kg)"
    have g: "getRelationship kg i = Inr (kg\<lparr>relationshipCache := ?c\<rparr>, r)"
      using None Some by (simp add: getRelationship_def readRelFile_def cacheRelationship_def)
    have "set ?c \<subseteq> insert (rel_id r, r) (set (relationshipCache kg))" by (rule set_cache_put)
    then have "rel_coherent (kg\<lparr>relationshipCache := ?c\<rparr>)"
      using assms Some id unfolding rel_coherent_cache_upd by (auto simp: rel_coherent_def)
    then show ?thesis using Some g by blast
  qed
qed

lemma collectRels_coherent:
  "rel_coherent kg \<Longrightarrow>
     \<exists>c. collectRels ty ids (kg, acc) =
            (kg\<lparr>relationshipCache := c\<rparr>, acc @ readable (relFiles kg) ty ids) \<and>
         rel_coherent (kg\<lparr>relationshipCache := c\<rparr>)"
proof (induction ids arbitrary: kg acc)
  case Nil
  have "collectRels ty [] (kg, acc) = (kg\<lparr>relationshipCache := relationshipCache kg\<rparr>, acc)"
    by simp
  then show ?case using Nil by (intro exI[of _ "relationshipCache kg"]) simp
next
  case (Cons i ids)
  from getRelationship_coherent[OF Cons.prems, of i] show ?case
  proof (elim disjE conjE exE)
    fix err assume n: "map_of (relFiles kg) i = None" and g: "getRelationship kg i = Inl err"
    from Cons.IH[OF Cons.prems, of acc] show ?thesis
      using n g by (simp add: readable_Cons)
  next
    fix r c
    assume f: "map_of (relFiles kg) i = Some r"
      and g: "getRelationship kg i = Inr (kg\<lparr>relationshipCache := c\<rparr>, r)"
      and co: "rel_coherent (kg\<lparr>relationshipCache := c\<rparr>)"
    let ?acc = "if \<not> truthy ty \<or> rel_type r = the ty then acc @ [r] else acc"
    from Cons.IH[OF co, of ?acc] obtain c' where
      "collectRels ty ids (kg\<lparr>relationshipCache := c\<rparr>, ?acc) =
         (kg\<lparr>relationshipCache := c'\<rparr>, ?acc @ readable (relFiles kg) ty ids)"
      "rel_coherent (kg\<lparr>relationshipCache := c'\<rparr>)"
      by auto
    then show ?thesis using f g
      by (intro exI[of _ c']) (simp add: readable_Cons)
  qed
qed

lemma gatherRelationships_coherent:
  assumes "rel_coherent kg"
  shows "\<exists>c. gatherRelationships kg x ty dir = (kg\<lparr>relationshipCache := c\<rparr>, related kg x ty dir) \<and>
             rel_coherent (kg\<lparr>relationshipCache := c\<rparr>)"
proof -
  define s1 where "s1 =
        (if dir = ''outgoing'' \<or> dir = ''both'' then
           (case map_of (source_index kg) x of
              None \<Rightarrow> (kg, [])
            | Some ids \<Rightarrow> collectRels ty ids (kg, []))
         else (kg, []))"
  define out where "out = (if dir = ''outgoing'' \<or> dir = ''both''
      then (case map_of (source_index kg) x of
              None \<Rightarrow> [] | Some ids \<Rightarrow> readable (relFiles kg) ty ids)
      else [])"
  have id: "(kg, []) = (kg\<lparr>relationshipCache := relationshipCache kg\<rparr>, [])" by simp
  have "\<exists>c. s1 = (kg\<lparr>relationshipCache := c\<rparr>, out) \<and> rel_coherent (kg\<lparr>relationshipCache := c\<rparr>)"
  proof (cases "(dir = ''outgoing'' \<or> dir = ''both'') \<and> map_of (source_index kg) x \<noteq> None")
    case True
    then obtain ids where i: "map_of (source_index kg) x = Some ids" by auto
    from collectRels_coherent[OF assms, of ty ids "[]"] show ?thesis
      using True i by (simp add: s1_def out_def)
  next
    case False
    then have "s1 = (kg\<lparr>relationshipCache := relationshipCache kg\<rparr>, [])" "out = []"
      by (auto simp: s1_def out_def split: option.splits)
    then show ?thesis using assms by (intro exI[of _ "relationshipCache kg"]) simp
  qed
  then obtain c where s1: "s1 = (kg\<lparr>relationshipCache := c\<rparr>, out)"
    and co: "rel_coherent (kg\<lparr>relationshipCache := c\<rparr>)" by blast
  have g: "gatherRelationships kg x ty dir =
      (if dir = ''incoming'' \<or> dir = ''both'' then
           (case map_of (target_index kg) x of
              None \<Rightarrow> s1
            | Some ids \<Rightarrow> collectRels ty ids s1)
         else s1)"
    unfolding gatherRelationships_def s1_def[symmetric] Let_def using s1 by simp
  have r: "related kg x ty dir = out @ (if dir = ''incoming'' \<or> dir = ''both''
      then (case map_of (target_index kg) x of
              None \<Rightarrow> [] | Some ids \<Rightarrow> readable (relFiles kg) ty ids)
      else [])"
    by (simp add: related_def out_def)
  show ?thesis
  proof (cases "(dir = ''incoming'' \<or> dir = ''both'') \<and> map_of (target_index kg) x \<noteq> None")
    case True
    then obtain ids where i: "map_of (target_index kg) x = Some ids" by auto
    from collectRels_coherent[OF co, of ty ids out] obtain c' where
      "collectRels ty ids (kg\<lparr>relationshipCache := c\<rparr>, out) =
         (kg\<lparr>relationshipCache := c'\<rparr>, out @ readable (relFiles kg) ty ids)"
      "rel_coherent (kg\<lparr>relationshipCache := c'\<rparr>)" by auto
    then show ?thesis using True i g r s1 by (intro exI[of _ c']) auto
  next
    case False
    then have "gatherRelationships kg x ty dir = s1" "related kg x ty dir = out"
      unfolding g r by (auto split: option.splits)
    then show ?thesis using s1 co by auto
  qed
qed






















text \<open>With coherent caches the neighbours are a function of the indices and the files
  alone.\<close>

lemma neighbours_files:
  assumes "kg_coherent kg"
  shows "neighbours kg tys dir x =
           filter (resolves (storageManager kg))
             (map (connectedEntityId x)
                (filter (followed tys) (js_slice (related kg x None dir) 0 1000)))"
proof -
  from gatherRelationships_coherent[of kg x None dir] assms obtain c where
    "gatherRelationships kg x None dir = (kg\<lparr>relationshipCache := c\<rparr>, related kg x None dir)"
    by (auto simp: kg_coherent_def)
  then show ?thesis by (simp add: neighbours_def listRelationships_def Let_def)
qed







end
